theory Spec2Isabelle
  imports Main "HOL-Library.AList"
begin

section \<open>Strings\<close>

text \<open>
  Cell values and keys are JavaScript strings; they are modelled as \<open>string\<close> (lists of
  8-bit characters), so the embedding covers ASCII text. \<open>trim\<close> removes the ASCII white
  space characters from both ends, \<open>toLowerCase\<close> maps \<open>A\<close>..\<open>Z\<close> to \<open>a\<close>..\<open>z\<close>.
\<close>

definition is_space :: "char \<Rightarrow> bool" where
  "is_space c \<longleftrightarrow> c \<in> set [CHR 0x09, CHR 0x0A, CHR 0x0B, CHR 0x0C, CHR 0x0D, CHR '' '']"

definition trim :: "string \<Rightarrow> string" where
  "trim s = rev (dropWhile is_space (rev (dropWhile is_space s)))"

definition lower_char :: "char \<Rightarrow> char" where
  "lower_char c =
     (case map_of (zip ''ABCDEFGHIJKLMNOPQRSTUVWXYZ'' ''abcdefghijklmnopqrstuvwxyz'') c of
        None \<Rightarrow> c | Some l \<Rightarrow> l)"

definition toLowerCase :: "string \<Rightarrow> string" where
  "toLowerCase s = map lower_char s"

text \<open>\<open>s.split(d)\<close> for a one-character separator: the pieces between the separators.\<close>

fun split_on :: "char \<Rightarrow> string \<Rightarrow> string list" where
  "split_on d [] = [[]]"
| "split_on d (c # cs) =
     (if c = d then [] # split_on d cs
      else (case split_on d cs of [] \<Rightarrow> [[c]] | p # ps \<Rightarrow> (c # p) # ps))"

text \<open>\<open>s.split(d)[0]\<close>.\<close>

definition first_part :: "char \<Rightarrow> string \<Rightarrow> string" where
  "first_part d s = (case split_on d s of [] \<Rightarrow> [] | p # _ \<Rightarrow> p)"

text \<open>The decimal text of a number, as \<open>String(n)\<close> and string concatenation give it.\<close>

fun digits :: "nat \<Rightarrow> string" where
  "digits n =
     (if n < 10 then [''0123456789'' ! n]
      else digits (n div 10) @ [''0123456789'' ! (n mod 10)])"

declare digits.simps [simp del]

section \<open>Normalization utilities (Util.gs)\<close>

text \<open>\<open>_normStr_(v)\<close>: \<open>String(v).trim()\<close>, the empty string for a missing value.\<close>

definition normStr :: "string \<Rightarrow> string" where
  "normStr v = trim v"

text \<open>
  \<open>normEmail(s)\<close>: trim and lower-case; an address with exactly one \<open>@\<close> whose domain is
  \<open>gmail.com\<close> or \<open>googlemail.com\<close> loses the dots of its local part and everything from
  the first \<open>+\<close>, and is rewritten to \<open>gmail.com\<close>.
\<close>

definition normEmail :: "string \<Rightarrow> string" where
  "normEmail s =
     (let email = toLowerCase (trim s) in
      if email = [] \<or> CHR ''@'' \<notin> set email then email
      else (case split_on CHR ''@'' email of
              [local, domain] \<Rightarrow>
                if domain = ''gmail.com'' \<or> domain = ''googlemail.com''
                then first_part CHR ''+'' (filter (\<lambda>c. c \<noteq> CHR ''.'') local) @ ''@gmail.com''
                else email
            | _ \<Rightarrow> email))"

text \<open>
  \<open>keyFor(jobId, email)\<close>. The source reads the clock (\<open>Date.now()\<close>, in milliseconds) when
  both parts are empty; the clock reading is the first argument of the model.
\<close>

definition keyFor :: "nat \<Rightarrow> string \<Rightarrow> string \<Rightarrow> string" where
  "keyFor now jobId email =
     (let jid = trim jobId; em = normEmail email in
      if jid = [] \<and> em = [] then ''_EMPTY_KEY_'' @ digits now
      else jid @ ''|'' @ em)"

section \<open>Hyperlinks (Util.gs)\<close>

definition dquote :: char where
  "dquote = CHR 0x22"

text \<open>\<open>_escapeForFormula_(s)\<close>: \<open>String(s).replace(/"/g, '""')\<close>.\<close>

definition escapeForFormula :: "string \<Rightarrow> string" where
  "escapeForFormula s = concat (map (\<lambda>c. if c = dquote then [dquote, dquote] else [c]) s)"

text \<open>
  The test \<open>u.match(/^(https?:\/\/.+|mailto:.+|tel:.+)/i)\<close>: one of the four protocol
  prefixes, compared without regard to case, followed by at least one character that is
  not a line terminator (\<open>.\<close> does not match a line feed or a carriage return).
\<close>

definition starts_ci :: "string \<Rightarrow> string \<Rightarrow> bool" where
  "starts_ci p u \<longleftrightarrow> length p \<le> length u \<and> toLowerCase (take (length p) u) = p"

definition dot_plus :: "string \<Rightarrow> bool" where
  "dot_plus r = (case r of [] \<Rightarrow> False | c # _ \<Rightarrow> c \<noteq> CHR 0x0A \<and> c \<noteq> CHR 0x0D)"

definition url_allowed :: "string \<Rightarrow> bool" where
  "url_allowed u \<longleftrightarrow>
     (starts_ci ''http://'' u \<and> dot_plus (drop 7 u)) \<or>
     (starts_ci ''https://'' u \<and> dot_plus (drop 8 u)) \<or>
     (starts_ci ''mailto:'' u \<and> dot_plus (drop 7 u)) \<or>
     (starts_ci ''tel:'' u \<and> dot_plus (drop 4 u))"

definition hyperlink_formula :: "string \<Rightarrow> string \<Rightarrow> string" where
  "hyperlink_formula u label =
     ''=HYPERLINK('' @ [dquote] @ escapeForFormula u @ [dquote] @ '','' @
       [dquote] @ escapeForFormula label @ [dquote] @ '')''"

text \<open>
  \<open>setHyperlink(sh, row, col, url, label)\<close> acts on one cell; the model takes the cell's
  content and returns the content after the call. A rejected or empty URL leaves the cell
  as it was (the source logs and returns); the range operation itself is taken to succeed.
\<close>

definition setHyperlink :: "string \<Rightarrow> string \<Rightarrow> string \<Rightarrow> string" where
  "setHyperlink cell url label =
     (let u = trim url in
      if u = [] then cell
      else if \<not> url_allowed u then cell
      else hyperlink_formula u label)"

text \<open>
  How a spreadsheet reads a string argument of a formula back: the literal runs from its
  opening quote to the first quote that is not doubled, a doubled quote standing for one
  quote character. \<open>read_lit\<close> takes the text after the opening quote and returns the
  string denoted and the text after the closing quote; \<open>parse_hyperlink\<close> reads a whole
  \<open>=HYPERLINK("...","...")\<close> formula. A value "breaks out" of its argument exactly when
  this reading does not return it.
\<close>

fun read_lit :: "string \<Rightarrow> (string \<times> string) option" where
  "read_lit [] = None"
| "read_lit [c] = (if c = dquote then Some ([], []) else None)"
| "read_lit (c # d # r) =
     (if c = dquote then
        (if d = dquote then map_option (\<lambda>(s, t). (dquote # s, t)) (read_lit r)
         else Some ([], d # r))
      else map_option (\<lambda>(s, t). (c # s, t)) (read_lit (d # r)))"

definition strip_prefix :: "string \<Rightarrow> string \<Rightarrow> string option" where
  "strip_prefix p s = (if take (length p) s = p then Some (drop (length p) s) else None)"

definition parse_hyperlink :: "string \<Rightarrow> (string \<times> string) option" where
  "parse_hyperlink f =
     (case strip_prefix (''=HYPERLINK('' @ [dquote]) f of
        None \<Rightarrow> None
      | Some r1 \<Rightarrow>
          (case read_lit r1 of
             None \<Rightarrow> None
           | Some (u, r2) \<Rightarrow>
               (case strip_prefix ('','' @ [dquote]) r2 of
                  None \<Rightarrow> None
                | Some r3 \<Rightarrow>
                    (case read_lit r3 of
                       None \<Rightarrow> None
                     | Some (l, r4) \<Rightarrow> if r4 = '')'' then Some (u, l) else None))))"

section \<open>Sheets (Constants.gs)\<close>

text \<open>
  The header names of the three sheets. Equal header texts of \<open>H_REQ\<close>, \<open>H_ALL\<close> and
  \<open>H_ACT\<close> are one constructor (\<open>H_ALL.JobID\<close> and \<open>H_REQ.JobID\<close> are both
  \<open>'Job ID'\<close>).
\<close>

datatype header =
    JobStatus | JobTitle | JobID | Priority | ReasonForHire | WorkModel | ReportingLocation
  | HeadcountTarget | EmploymentType | MinSalary | MaxSalary | HourlyMin | HourlyMax
  | JobOwner | HiringManager | Created | Opened | DaysOpen | OnHoldDate | ClosedDate
  | PositionHiredDate | HiredCandidateName
  | FullName | Resume | LinkedIn | Phone | Email | HomeAddress | City | State | Zip
  | TargetSalary | TargetHourly | WorkPref | Stage | RejectedReason | InterviewNotes
  | Relocate | Source | Updated | HiredDate

text \<open>
  A row object maps a header to the text of its cell; a blank or missing cell is the empty
  string. A sheet is the list of its data rows, and a row number is the offset of the row
  from the first data row. The header map of a sheet is the list of the headers that
  Constants.gs declares for it: the sheets carry the template's columns, and every header
  the code below reads from a row is a column of that row's sheet.
\<close>

type_synonym row = "header \<Rightarrow> string"

definition H_REQ :: "header list" where
  "H_REQ = [JobStatus, JobTitle, JobID, Priority, ReasonForHire, WorkModel, ReportingLocation,
     HeadcountTarget, EmploymentType, MinSalary, MaxSalary, HourlyMin, HourlyMax, JobOwner,
     HiringManager, Created, Opened, DaysOpen, OnHoldDate, ClosedDate, PositionHiredDate,
     HiredCandidateName]"

definition H_ALL :: "header list" where
  "H_ALL = [FullName, Resume, LinkedIn, Phone, Email, HomeAddress, City, State, Zip,
     TargetSalary, TargetHourly, WorkPref, JobID, JobStatus, JobTitle, Stage, RejectedReason,
     InterviewNotes, Relocate, Source, Created, Updated, HiredDate]"

definition H_ACT :: "header list" where
  "H_ACT = [FullName, JobID, JobStatus, JobTitle, Stage, RejectedReason, InterviewNotes,
     Resume, LinkedIn, Phone, Email, City, State, TargetSalary, TargetHourly]"

definition MIRRORED_FIELDS :: "header list" where
  "MIRRORED_FIELDS = [Stage, RejectedReason, InterviewNotes, Resume, LinkedIn, Phone, Email,
     City, State, TargetSalary, TargetHourly, JobTitle, JobStatus, FullName, JobID, Created,
     HiredDate]"

definition blank_row :: row where
  "blank_row = (\<lambda>_. [])"

text \<open>\<open>getRowObjectByHeaders\<close>: a row past the last data row reads as blank cells.\<close>

definition getRowObjectByHeaders :: "row list \<Rightarrow> nat \<Rightarrow> row" where
  "getRowObjectByHeaders sh r = (if r < length sh then sh ! r else blank_row)"

text \<open>
  \<open>setRowValuesByHeaders(sh, hm, row, updates)\<close> writes the updates whose header is in the
  header map and drops the others (the source batches neighbouring columns into one
  range write; each cell receives its value either way).
\<close>

definition writeCells :: "header list \<Rightarrow> row \<Rightarrow> (header \<times> string) list \<Rightarrow> row" where
  "writeCells hm obj updates =
     foldl (\<lambda>cur (h, v). if h \<in> set hm then cur(h := v) else cur) obj updates"

definition setRowValuesByHeaders ::
  "header list \<Rightarrow> nat \<Rightarrow> (header \<times> string) list \<Rightarrow> row list \<Rightarrow> row list" where
  "setRowValuesByHeaders hm r updates sh =
     (if r < length sh then sh[r := writeCells hm (sh ! r) updates] else sh)"

text \<open>
  A cell that holds a \<open>Date\<close> is represented by the decimal text of its time in
  milliseconds; it is never the empty string, as a \<open>Date\<close> object is never falsy.
  \<open>nowDetroit()\<close> is the clock reading passed to the functions that stamp a time.
\<close>

definition of_date :: "nat \<Rightarrow> string" where
  "of_date t = digits t"

definition truthy :: "string \<Rightarrow> bool" where
  "truthy v \<longleftrightarrow> v \<noteq> []"

section \<open>Requisition status transitions (Requisitions.gs)\<close>

text \<open>The update object \<open>up\<close> that \<open>applyReqStatusTransitionsForRows_\<close> builds for one row.\<close>

definition reqStatusUpdates :: "header list \<Rightarrow> nat \<Rightarrow> row \<Rightarrow> (header \<times> string) list" where
  "reqStatusUpdates hm now rowObj =
     (let status = normStr (rowObj JobStatus) in
      (if status \<noteq> ''Hired'' \<and> HiredCandidateName \<in> set hm \<and> truthy (rowObj HiredCandidateName)
       then [(HiredCandidateName, [])] else []) @
      (if status = ''Open'' then
         (if Opened \<in> set hm \<and> \<not> truthy (rowObj Opened) then [(Opened, of_date now)] else []) @
         (if OnHoldDate \<in> set hm \<and> truthy (rowObj OnHoldDate) then [(OnHoldDate, [])] else []) @
         (if ClosedDate \<in> set hm \<and> truthy (rowObj ClosedDate) then [(ClosedDate, [])] else []) @
         (if PositionHiredDate \<in> set hm \<and> truthy (rowObj PositionHiredDate)
          then [(PositionHiredDate, [])] else [])
       else if status = ''On Hold'' then
         (if OnHoldDate \<in> set hm \<and> \<not> truthy (rowObj OnHoldDate)
          then [(OnHoldDate, of_date now)] else []) @
         (if ClosedDate \<in> set hm \<and> truthy (rowObj ClosedDate) then [(ClosedDate, [])] else []) @
         (if PositionHiredDate \<in> set hm \<and> truthy (rowObj PositionHiredDate)
          then [(PositionHiredDate, [])] else [])
       else if status = ''Closed'' then
         (if ClosedDate \<in> set hm \<and> \<not> truthy (rowObj ClosedDate)
          then [(ClosedDate, of_date now)] else [])
       else if status = ''Hired'' then
         (if PositionHiredDate \<in> set hm \<and> \<not> truthy (rowObj PositionHiredDate)
          then [(PositionHiredDate, of_date now)] else []) @
         (if ClosedDate \<in> set hm \<and> \<not> truthy (rowObj ClosedDate)
          then [(ClosedDate, of_date now)] else [])
       else []))"

text \<open>
  \<open>applyReqStatusTransitionsForRows_(rows)\<close> on the Requisitions sheet, with the clock
  reading \<open>now\<close>.
\<close>

definition applyReqStatusTransitionsForRows :: "nat \<Rightarrow> nat list \<Rightarrow> row list \<Rightarrow> row list" where
  "applyReqStatusTransitionsForRows now rows sh =
     foldl (\<lambda>sh r.
        let rowObj = getRowObjectByHeaders sh r; up = reqStatusUpdates H_REQ now rowObj in
        if up \<noteq> [] then setRowValuesByHeaders H_REQ r up sh else sh) sh rows"

section \<open>Candidate sync helpers (CandidatesSync.gs)\<close>

definition is_digit :: "char \<Rightarrow> bool" where
  "is_digit c \<longleftrightarrow> c \<in> set ''0123456789''"

text \<open>The test \<open>/^-?\d+(\.\d+)?$/\<close> of \<open>_valsEqual_\<close>.\<close>

definition is_num :: "string \<Rightarrow> bool" where
  "is_num s =
     (let u = (case s of [] \<Rightarrow> [] | c # r \<Rightarrow> if c = CHR ''-'' then r else s);
          ip = takeWhile is_digit u; rest = dropWhile is_digit u in
      ip \<noteq> [] \<and>
      (case rest of [] \<Rightarrow> True
       | c # fr \<Rightarrow> c = CHR ''.'' \<and> fr \<noteq> [] \<and> list_all is_digit fr))"

text \<open>
  The value of a numeric text as a scaled integer: the digits without the point, with
  the sign, and the number of digits after the point. \<open>Number(a) === Number(b)\<close> is the
  equality of the two decimal values (the rounding of \<open>Number\<close> to a double, which only
  identifies decimals of more than fifteen significant digits, is not modelled).
\<close>

definition digit_val :: "char \<Rightarrow> nat" where
  "digit_val c = (case map_of (zip ''0123456789'' [0, 1, 2, 3, 4, 5, 6, 7, 8, 9]) c of
                    None \<Rightarrow> 0 | Some d \<Rightarrow> d)"

definition num_val :: "string \<Rightarrow> int \<times> nat" where
  "num_val s =
     (let neg = (case s of [] \<Rightarrow> False | c # _ \<Rightarrow> c = CHR ''-'');
          ds = filter is_digit s;
          m = int (foldl (\<lambda>n c. 10 * n + digit_val c) 0 ds);
          k = length (dropWhile (\<lambda>c. c \<noteq> CHR ''.'') s) - 1 in
      (if neg then - m else m, k))"

definition num_eq :: "string \<Rightarrow> string \<Rightarrow> bool" where
  "num_eq a b = (case (num_val a, num_val b) of
                   ((m, k), (n, l)) \<Rightarrow> m * 10 ^ l = n * 10 ^ k)"

definition valsEqual :: "string \<Rightarrow> string \<Rightarrow> bool" where
  "valsEqual a b = (if is_num a \<and> is_num b then num_eq a b else trim a = trim b)"

text \<open>\<open>_diffFields_(sourceObj, targetObj, fields)\<close>, the result as the list of its entries.\<close>

definition diffFields :: "row \<Rightarrow> row \<Rightarrow> header list \<Rightarrow> (header \<times> string) list" where
  "diffFields sourceObj targetObj fields =
     map (\<lambda>f. (f, sourceObj f)) (filter (\<lambda>f. \<not> valsEqual (sourceObj f) (targetObj f)) fields)"

definition upper_char :: "char \<Rightarrow> char" where
  "upper_char c =
     (case map_of (zip ''abcdefghijklmnopqrstuvwxyz'' ''ABCDEFGHIJKLMNOPQRSTUVWXYZ'') c of
        None \<Rightarrow> c | Some u \<Rightarrow> u)"

definition canonReqStatus :: "string \<Rightarrow> string" where
  "canonReqStatus sRaw =
     (let s = toLowerCase (normStr sRaw) in
      if s = [] then []
      else if s = ''open'' then ''Open''
      else if s = ''on hold'' then ''On Hold''
      else if s = ''closed'' then ''Closed''
      else if s = ''pending approval'' then ''Pending Approval''
      else if s = ''hired'' then ''Hired''
      else (case s of [] \<Rightarrow> [] | c # cs \<Rightarrow> upper_char c # cs))"

definition isOpenForActive :: "string \<Rightarrow> bool" where
  "isOpenForActive status =
     (let canon = canonReqStatus status in canon = ''Open'' \<or> canon = ''On Hold'')"

section \<open>Index builders (Util.gs)\<close>

text \<open>
  A JavaScript \<open>Map\<close> is an association list in insertion order: \<open>set\<close> on a key already
  present replaces its value in place, \<open>set\<close> on a new key appends.
\<close>

fun candIndexLoop ::
  "nat \<Rightarrow> nat \<Rightarrow> row list \<Rightarrow> (string \<times> nat) list \<Rightarrow> (nat \<times> row) list \<Rightarrow>
   (string \<times> nat) list \<times> (nat \<times> row) list" where
  "candIndexLoop now r [] index rows = (index, rows)"
| "candIndexLoop now r (obj # rng) index rows =
     (let jid = trim (obj JobID); em = normEmail (obj Email) in
      if jid \<noteq> [] \<or> em \<noteq> []
      then candIndexLoop now (Suc r) rng (AList.update (keyFor now jid em) r index)
             (rows @ [(r, obj)])
      else candIndexLoop now (Suc r) rng index rows)"

definition buildCandidateIndex ::
  "nat \<Rightarrow> row list \<Rightarrow> (string \<times> nat) list \<times> (nat \<times> row) list" where
  "buildCandidateIndex now sh = candIndexLoop now 0 sh [] []"

fun reqIndexLoop :: "nat \<Rightarrow> row list \<Rightarrow> (string \<times> nat) list \<Rightarrow> (string \<times> nat) list" where
  "reqIndexLoop r [] idx = idx"
| "reqIndexLoop r (obj # rng) idx =
     (let jid = trim (obj JobID) in
      reqIndexLoop (Suc r) rng (if jid \<noteq> [] then AList.update jid r idx else idx))"

definition buildReqIndex :: "row list \<Rightarrow> (string \<times> nat) list" where
  "buildReqIndex sh = reqIndexLoop 0 sh []"

section \<open>The workbook\<close>

record book =
  req :: "row list"
  allc :: "row list"
  act :: "row list"
  recentEdits :: "string list"
  processingHiredFlow :: bool

text \<open>
  \<open>req\<close>, \<open>allc\<close> and \<open>act\<close> are the Requisitions, Candidate Database and Active
  Candidates sheets, \<open>recentEdits\<close> the composite keys that the cache holds as recently
  edited in Active Candidates, \<open>processingHiredFlow\<close> the guard \<open>_processingHiredFlow\<close>.
\<close>

section \<open>Hired flow (CandidatesSync.gs)\<close>

definition hiredReqUpdates :: "string \<Rightarrow> row \<Rightarrow> (header \<times> string) list" where
  "hiredReqUpdates hiredFullName reqObj =
     (if canonReqStatus (reqObj JobStatus) \<noteq> ''Hired'' then [(JobStatus, ''Hired'')] else []) @
     (if truthy hiredFullName \<and> normStr (reqObj HiredCandidateName) \<noteq> normStr hiredFullName
      then [(HiredCandidateName, hiredFullName)] else [])"

definition hiredRejectUpdates ::
  "nat \<Rightarrow> string \<Rightarrow> string \<Rightarrow> row \<Rightarrow> (header \<times> string) list" where
  "hiredRejectUpdates now jobId hiredEmail data =
     (let candJobId = normStr (data JobID); candEmail = normEmail (data Email) in
      if candJobId = jobId \<and> candEmail \<noteq> hiredEmail then
        (let currentStage = normStr (data Stage) in
         if currentStage \<noteq> ''Hired'' \<and> currentStage \<noteq> ''Rejected''
         then [(Stage, ''Rejected''), (RejectedReason, ''Hired a Different Candidate''),
               (Updated, of_date now)]
         else [])
      else [])"

text \<open>
  \<open>applyHiredFlow_(jobId, hiredFullName, hiredEmail)\<close>. The guard is set on entry and
  cleared in the \<open>finally\<close> block, so it is clear again in the returned state; a nested
  call, which finds it set, returns at once.
\<close>

definition applyHiredFlow :: "nat \<Rightarrow> string \<Rightarrow> string \<Rightarrow> string \<Rightarrow> book \<Rightarrow> book" where
  "applyHiredFlow now jobId hiredFullName hiredEmail st =
     (if processingHiredFlow st then st
      else
        let req1 =
              (case map_of (buildReqIndex (req st)) jobId of
                 None \<Rightarrow> req st
               | Some reqRow \<Rightarrow>
                   let reqObj = getRowObjectByHeaders (req st) reqRow;
                       updates = hiredReqUpdates hiredFullName reqObj in
                   if updates \<noteq> []
                   then applyReqStatusTransitionsForRows now [reqRow]
                          (setRowValuesByHeaders H_REQ reqRow updates (req st))
                   else req st);
            allCandRows = snd (buildCandidateIndex now (allc st));
            all1 = foldl (\<lambda>sh (r, data).
                      let updates = hiredRejectUpdates now jobId hiredEmail data in
                      if updates \<noteq> [] then setRowValuesByHeaders H_ALL r updates sh else sh)
                    (allc st) allCandRows
        in st\<lparr>req := req1, allc := all1, processingHiredFlow := False\<rparr>)"

text \<open>
  The workbook of the hired-flow scenario of the specification, with the status cell of the
  requisition holding \<open>hired\<close> in lower case.
\<close>

definition ex_hired_lowercase :: book where
  "ex_hired_lowercase =
     \<lparr>req = [blank_row(JobID := ''2025-0001'', JobStatus := ''hired'')],
      allc = [blank_row(FullName := ''Ann Lee'', Email := ''a@x.com'',
                 JobID := ''2025-0001'', Stage := ''Hired''),
              blank_row(FullName := ''Bo Ray'', Email := ''b@x.com'',
                 JobID := ''2025-0001'', Stage := ''Interviewing'')],
      act = [], recentEdits = [], processingHiredFlow = False\<rparr>"

section \<open>Unique emails (CandidatesSync.gs)\<close>

text \<open>
  The scan of \<open>enforceUniqueEmail_\<close>: \<open>seen\<close> maps a normalized email to the first row
  that holds it, \<open>rowsToClear\<close> collects the later rows with a seen email that are among
  the edited \<open>rows\<close>.
\<close>

fun uniqueScan ::
  "nat list \<Rightarrow> nat \<Rightarrow> row list \<Rightarrow> (string \<times> nat) list \<Rightarrow> nat list \<Rightarrow> nat list" where
  "uniqueScan rows rowIdx [] seen rowsToClear = rowsToClear"
| "uniqueScan rows rowIdx (d # data) seen rowsToClear =
     (let email = normEmail (d Email) in
      if email = [] then uniqueScan rows (Suc rowIdx) data seen rowsToClear
      else if map_of seen email = None
      then uniqueScan rows (Suc rowIdx) data (AList.update email rowIdx seen) rowsToClear
      else if rowIdx \<in> set rows
      then uniqueScan rows (Suc rowIdx) data seen (rowsToClear @ [rowIdx])
      else uniqueScan rows (Suc rowIdx) data seen rowsToClear)"

text \<open>
  \<open>enforceUniqueEmail_(sh, rows)\<close>: the email cell of every row to clear is set to the
  empty string (the source sorts the rows and clears each run of neighbouring rows with
  one range write).
\<close>

definition enforceUniqueEmail :: "nat list \<Rightarrow> row list \<Rightarrow> row list" where
  "enforceUniqueEmail rows sh =
     (if Email \<notin> set H_ALL then sh
      else
        let rowsToClear = uniqueScan rows 0 sh [] [] in
        foldl (\<lambda>sh r. setRowValuesByHeaders H_ALL r [(Email, [])] sh) sh (sort rowsToClear))"


section \<open>Reconciliation of Active Candidates (CandidatesSync.gs)\<close>

text \<open>
  The sheets hold cell values. After \<open>setHyperlink\<close> has written its formula, the cell
  shows the label (the value of \<open>HYPERLINK(url, label)\<close>); when \<open>setHyperlink\<close> returns
  early, the cell keeps its value.
\<close>

definition shownAfterHyperlink :: "string \<Rightarrow> string \<Rightarrow> string \<Rightarrow> string" where
  "shownAfterHyperlink shown url label =
     (let u = trim url in
      if u = [] then shown
      else if \<not> url_allowed u then shown
      else label)"

definition normPhone :: "string \<Rightarrow> string" where
  "normPhone s = filter is_digit s"

definition PHONE_MIN_DIGITS :: nat where
  "PHONE_MIN_DIGITS = 10"

text \<open>
  The writes that a reconciliation run performs on the sheets: deleted and inserted Active
  rows, and the non-empty field diffs written to a Candidate Database row or to an
  existing Active row.
\<close>

datatype sheet_write =
    DeleteActiveRow nat
  | InsertActiveRow nat
  | WriteAll nat "(header \<times> string) list"
  | WriteActive nat "(header \<times> string) list"

text \<open>The keys of \<open>desired\<close> in \<open>_upsertActiveRow_\<close>.\<close>

definition desiredFields :: "header list" where
  "desiredFields = filter (\<lambda>f. f \<noteq> Resume \<and> f \<noteq> LinkedIn \<and> f \<in> set H_ACT) MIRRORED_FIELDS"

text \<open>
  The last block of \<open>_upsertActiveRow_\<close> on the target row: the email cell becomes a
  \<open>mailto:\<close> link and the phone cell a \<open>tel:\<close> link. The Resume and LinkedIn cells, which
  the same block links from URLs extracted out of the rich text and formulas of the
  Candidate Database, are outside the cell values modelled here and are left as they are.
\<close>

definition activeLinks :: "row \<Rightarrow> row \<Rightarrow> row" where
  "activeLinks allRowObj obj =
     (let email = normEmail (allRowObj Email);
          obj1 = (if Email \<in> set H_ACT \<and> truthy email
                  then obj(Email := shownAfterHyperlink (obj Email) (''mailto:'' @ email) email)
                  else obj);
          phone = normPhone (allRowObj Phone)
      in if Phone \<in> set H_ACT \<and> truthy phone \<and> length phone \<ge> PHONE_MIN_DIGITS
         then obj1(Phone := shownAfterHyperlink (obj1 Phone) (''tel:'' @ phone)
                     (if truthy (allRowObj Phone) then allRowObj Phone else phone))
         else obj1)"

text \<open>
  \<open>_upsertActiveRow_(allRowObj, linkPayload)\<close> on the Active sheet; it returns the sheet
  and the writes performed. A new row goes after the last row.
\<close>

definition upsertActiveRow :: "nat \<Rightarrow> row \<Rightarrow> row list \<Rightarrow> row list \<times> sheet_write list" where
  "upsertActiveRow now allRowObj actSh =
     (let jobId = normStr (allRowObj JobID); email = normEmail (allRowObj Email) in
      if jobId = [] \<or> email = [] then (actSh, [])
      else
        let idxAct = fst (buildCandidateIndex now actSh) in
        case map_of idxAct (keyFor now jobId email) of
          Some existingRow \<Rightarrow>
            let current = getRowObjectByHeaders actSh existingRow;
                diff = diffFields allRowObj current desiredFields;
                act1 = (if diff \<noteq> [] then setRowValuesByHeaders H_ACT existingRow diff actSh
                        else actSh)
            in (act1[existingRow := activeLinks allRowObj (getRowObjectByHeaders act1 existingRow)],
                if diff \<noteq> [] then [WriteActive existingRow diff] else [])
        | None \<Rightarrow>
            let targetRow = length actSh;
                newRow = writeCells H_ACT blank_row (map (\<lambda>f. (f, allRowObj f)) desiredFields)
            in (actSh @ [activeLinks allRowObj newRow], [InsertActiveRow targetRow]))"

definition filterJob :: "string list \<Rightarrow> string \<Rightarrow> bool" where
  "filterJob jobIds jid \<longleftrightarrow> jobIds = [] \<or> jid \<in> set jobIds"

text \<open>The status cell of the requisition that the index gives for a job ID, blank if none.\<close>

definition reqStatusOf :: "row list \<Rightarrow> string \<Rightarrow> string" where
  "reqStatusOf reqSh jid =
     (case map_of (buildReqIndex reqSh) jid of
        None \<Rightarrow> []
      | Some reqRow \<Rightarrow> getRowObjectByHeaders reqSh reqRow JobStatus)"

text \<open>The deletion pass: the rows of the Active index that are to be deleted.\<close>

definition activeToDelete :: "nat \<Rightarrow> string list \<Rightarrow> book \<Rightarrow> nat list" where
  "activeToDelete now jobIds st =
     (let idxAct = fst (buildCandidateIndex now (act st));
          idxAll = fst (buildCandidateIndex now (allc st))
      in map snd
           (filter (\<lambda>(key, r).
               let jid = first_part CHR ''|'' key in
               filterJob jobIds jid \<and>
               (let inAll = (map_of idxAll key \<noteq> None);
                    allowed = (inAll \<and> isOpenForActive (reqStatusOf (req st) jid))
                in \<not> inAll \<or> \<not> allowed))
             idxAct))"

definition deleteRow :: "nat \<Rightarrow> row list \<Rightarrow> row list" where
  "deleteRow r sh = take r sh @ drop (Suc r) sh"

text \<open>
  One iteration of the loop over the relevant Candidate Database rows. The loop state is
  the Candidate Database sheet, the Active sheet, \<open>processedKeys\<close> and the writes so far;
  \<open>data\<close> is the row object read when the index was built.
\<close>

definition reconcileStep ::
  "nat \<Rightarrow> string list \<Rightarrow> row list \<Rightarrow> string list \<Rightarrow>
   row list \<times> row list \<times> string list \<times> sheet_write list \<Rightarrow> nat \<times> row \<Rightarrow>
   row list \<times> row list \<times> string list \<times> sheet_write list" where
  "reconcileStep now jobIds reqSh recent s p =
     (case s of (allSh, actSh, processedKeys, log) \<Rightarrow>
      case p of (r, data) \<Rightarrow>
        let jid = normStr (data JobID); eml = normEmail (data Email) in
        if jid = [] \<or> eml = [] \<or> \<not> filterJob jobIds jid then s
        else
          let k = keyFor now jid eml in
          if k \<in> set processedKeys then s
          else
            case map_of (buildReqIndex reqSh) jid of
              None \<Rightarrow> (allSh, actSh, processedKeys @ [k], log)
            | Some reqRow \<Rightarrow>
                let rObj = getRowObjectByHeaders reqSh reqRow;
                    reqStatusCanon = canonReqStatus (rObj JobStatus);
                    reqTitle = rObj JobTitle;
                    wantAll = blank_row(JobTitle := reqTitle, JobStatus := reqStatusCanon);
                    diff = diffFields wantAll data [JobTitle, JobStatus];
                    diffAll = (if diff \<noteq> [] then diff @ [(Updated, of_date now)] else []);
                    allSh1 = (if diff \<noteq> [] then setRowValuesByHeaders H_ALL r diffAll allSh
                              else allSh);
                    data1 = foldl (\<lambda>d (k2, v2). d(k2 := v2)) data diffAll;
                    log1 = log @ (if diff \<noteq> [] then [WriteAll r diffAll] else [])
                in
                  if isOpenForActive reqStatusCanon \<and> k \<notin> set recent
                  then (case upsertActiveRow now data1 actSh of
                          (actSh1, w) \<Rightarrow> (allSh1, actSh1, processedKeys @ [k], log1 @ w))
                  else (allSh1, actSh, processedKeys @ [k], log1))"

text \<open>
  \<open>reconcileActiveMembership_ByJobIds_(jobIds)\<close> with the three sheets and their headers
  present: the workbook after the run and the writes of the run. \<open>now\<close> is the clock
  reading of the run.
\<close>

definition reconcileActiveMembership_ByJobIds ::
  "nat \<Rightarrow> string list \<Rightarrow> book \<Rightarrow> book \<times> sheet_write list" where
  "reconcileActiveMembership_ByJobIds now jobIds st =
     (let toDelete = rev (sort (activeToDelete now jobIds st));
          act1 = foldl (\<lambda>sh r. deleteRow r sh) (act st) toDelete;
          allRows = snd (buildCandidateIndex now (allc st));
          relevantRows = (if jobIds \<noteq> []
                          then filter (\<lambda>(r, data). normStr (data JobID) \<in> set jobIds) allRows
                          else allRows)
      in case foldl (reconcileStep now jobIds (req st) (recentEdits st))
                (allc st, act1, [], map DeleteActiveRow toDelete) relevantRows of
           (allSh, actSh, processedKeys, log) \<Rightarrow> (st\<lparr>allc := allSh, act := actSh\<rparr>, log))"

text \<open>
  A row has an identity when its trimmed job ID or its normalized email is not empty (the
  rows that \<open>buildCandidateIndex\<close> indexes), and a full identity when both are not empty
  (the rows that the reconciliation loop processes). \<open>rowKey\<close> is the composite key under
  which the index holds the row.
\<close>

definition hasIdentity :: "row \<Rightarrow> bool" where
  "hasIdentity obj \<longleftrightarrow> trim (obj JobID) \<noteq> [] \<or> normEmail (obj Email) \<noteq> []"

definition fullIdentity :: "row \<Rightarrow> bool" where
  "fullIdentity obj \<longleftrightarrow> trim (obj JobID) \<noteq> [] \<and> normEmail (obj Email) \<noteq> []"

definition rowKey :: "nat \<Rightarrow> row \<Rightarrow> string" where
  "rowKey now obj = keyFor now (trim (obj JobID)) (normEmail (obj Email))"

text \<open>
  The test of the deletion pass on a key of the Active index, for a run over all jobs: the
  key is in the Candidate Database index and the requisition of the job ID read off the
  key is Open or On Hold.
\<close>

definition keepsActive :: "nat \<Rightarrow> book \<Rightarrow> string \<Rightarrow> bool" where
  "keepsActive now st key \<longleftrightarrow>
     map_of (fst (buildCandidateIndex now (allc st))) key \<noteq> None \<and>
     isOpenForActive (reqStatusOf (req st) (first_part CHR ''|'' key))"

text \<open>
  The row object \<open>data\<close> of a processed Candidate Database row after the loop has written
  the job title and status of its requisition \<open>rObj\<close> to it.
\<close>

definition mirrorJobFields :: "nat \<Rightarrow> row \<Rightarrow> row \<Rightarrow> row" where
  "mirrorJobFields now rObj data =
     (let wantAll = blank_row(JobTitle := rObj JobTitle, JobStatus := canonReqStatus (rObj JobStatus));
          diff = diffFields wantAll data [JobTitle, JobStatus];
          diffAll = (if diff \<noteq> [] then diff @ [(Updated, of_date now)] else [])
      in foldl (\<lambda>d (k2, v2). d(k2 := v2)) data diffAll)"

text \<open>
  An Active row that an upsert from the Candidate Database row \<open>data\<close> leaves as it is: no
  mirrored field differs, and the email and phone cells already show their links.
\<close>

definition activeRowSettled :: "row \<Rightarrow> row \<Rightarrow> bool" where
  "activeRowSettled data obj \<longleftrightarrow>
     diffFields data obj desiredFields = [] \<and> activeLinks data obj = obj"

text \<open>
  Row \<open>r\<close> of a sheet has a full identity and no earlier row with a full identity has its
  key: the rows that the loop does not skip as duplicates.
\<close>

definition firstWithKey :: "nat \<Rightarrow> row list \<Rightarrow> nat \<Rightarrow> bool" where
  "firstWithKey now sh r \<longleftrightarrow>
     fullIdentity (sh ! r) \<and>
     (\<forall>r'<r. fullIdentity (sh ! r') \<longrightarrow> rowKey now (sh ! r') \<noteq> rowKey now (sh ! r))"

text \<open>Row \<open>r\<close> of the Candidate Database after a run over all jobs that started in \<open>st\<close>.\<close>

definition rowAfterRun :: "nat \<Rightarrow> book \<Rightarrow> nat \<Rightarrow> row" where
  "rowAfterRun now st r =
     (let d = allc st ! r in
      if firstWithKey now (allc st) r
      then (case map_of (buildReqIndex (req st)) (trim (d JobID)) of
              None \<Rightarrow> d
            | Some q \<Rightarrow> mirrorJobFields now (getRowObjectByHeaders (req st) q) d)
      else d)"

text \<open>
  The state of the loop of a run over all jobs, started in \<open>st\<close>, after the first \<open>n\<close>
  rows of the Candidate Database: the rows from \<open>n\<close> on are untouched and the earlier rows
  have their final content; \<open>processedKeys\<close> holds the keys of the earlier rows with a full
  identity; every Active row with an identity passes the test of the deletion pass, has a
  job ID without \<open>|\<close> and a key of its own; every earlier row with a full identity, an
  open requisition and a key that is not recently edited has an Active row; and that
  Active row is settled when the earlier row is the first with its key and its email cell
  compares equal to its normalized email.
\<close>

definition runInvariant ::
  "nat \<Rightarrow> book \<Rightarrow> nat \<Rightarrow> row list \<times> row list \<times> string list \<times> sheet_write list \<Rightarrow> bool" where
  "runInvariant now st n s =
     (case s of (allSh, actSh, processedKeys, log) \<Rightarrow>
        length allSh = length (allc st) \<and>
        (\<forall>r. n \<le> r \<and> r < length (allc st) \<longrightarrow> allSh ! r = allc st ! r) \<and>
        (\<forall>r<n. allSh ! r = rowAfterRun now st r) \<and>
        set processedKeys = {rowKey now (allc st ! r) | r. r < n \<and> fullIdentity (allc st ! r)} \<and>
        (\<forall>a \<in> set actSh. hasIdentity a \<longrightarrow> keepsActive now st (rowKey now a)) \<and>
        (\<forall>a \<in> set actSh. CHR ''|'' \<notin> set (a JobID)) \<and>
        distinct (map (rowKey now) (filter hasIdentity actSh)) \<and>
        (\<forall>r<n. fullIdentity (allc st ! r) \<and>
               isOpenForActive (reqStatusOf (req st) (trim ((allc st ! r) JobID))) \<and>
               rowKey now (allc st ! r) \<notin> set (recentEdits st)
           \<longrightarrow> (\<exists>a \<in> set actSh. hasIdentity a \<and> rowKey now a = rowKey now (allc st ! r))) \<and>
        (\<forall>r<n. firstWithKey now (allc st) r \<and>
               isOpenForActive (reqStatusOf (req st) (trim ((allc st ! r) JobID))) \<and>
               rowKey now (allc st ! r) \<notin> set (recentEdits st) \<and>
               valsEqual ((allc st ! r) Email) (normEmail ((allc st ! r) Email))
           \<longrightarrow> (\<exists>a \<in> set actSh. hasIdentity a \<and> rowKey now a = rowKey now (allc st ! r) \<and>
                  activeRowSettled (rowAfterRun now st r) a)))"

text \<open>
  Workbooks for the examples: a candidate without an email; two Active rows with one key
  and no candidate; a job ID with a \<open>|\<close>, its requisition Closed and the requisition named
  by the part before the \<open>|\<close> Open; an open and a closed job with one candidate each and a
  stale Active row; a candidate whose email is not in normalized form; a job ID with a
  \<open>|\<close> and an Open requisition.
\<close>

definition ex_blank :: book where
  "ex_blank = \<lparr>req = [blank_row(JobID := ''J1'', JobStatus := ''Open'')],
               allc = [blank_row(JobID := ''J1'', FullName := ''Ann Lee'')],
               act = [], recentEdits = [], processingHiredFlow = False\<rparr>"

definition ex_twin :: book where
  "ex_twin = \<lparr>req = [], allc = [],
              act = [blank_row(JobID := ''J1'', Email := ''a@x.com''),
                     blank_row(JobID := ''J1'', Email := ''a@x.com'')],
              recentEdits = [], processingHiredFlow = False\<rparr>"

definition ex_bar :: book where
  "ex_bar = \<lparr>req = [blank_row(JobID := ''A'', JobStatus := ''Open''),
                    blank_row(JobID := ''A|B'', JobStatus := ''Closed'')],
             allc = [blank_row(JobID := ''A|B'', Email := ''a@x.com'')],
             act = [blank_row(JobID := ''A|B'', Email := ''a@x.com'')],
             recentEdits = [], processingHiredFlow = False\<rparr>"

definition ex_two_jobs :: book where
  "ex_two_jobs = \<lparr>req = [blank_row(JobID := ''J1'', JobStatus := ''Open'', JobTitle := ''Eng''),
                         blank_row(JobID := ''J2'', JobStatus := ''Closed'', JobTitle := ''Ops'')],
                  allc = [blank_row(JobID := ''J1'', Email := ''a@x.com'', FullName := ''Ann Lee''),
                          blank_row(JobID := ''J2'', Email := ''b@x.com'', FullName := ''Bo Ray'')],
                  act = [blank_row(JobID := ''J2'', Email := ''b@x.com'', FullName := ''Bo Ray'')],
                  recentEdits = [], processingHiredFlow = False\<rparr>"

definition ex_raw_email :: book where
  "ex_raw_email = \<lparr>req = [blank_row(JobID := ''J1'', JobStatus := ''Open'', JobTitle := ''Eng'')],
                   allc = [blank_row(JobID := ''J1'', Email := ''John@X.com'', FullName := ''John'')],
                   act = [], recentEdits = [], processingHiredFlow = False\<rparr>"

definition ex_bar_open :: book where
  "ex_bar_open = \<lparr>req = [blank_row(JobID := ''A|B'', JobStatus := ''Open'')],
                  allc = [blank_row(JobID := ''A|B'', Email := ''a@x.com'')],
                  act = [], recentEdits = [], processingHiredFlow = False\<rparr>"

text \<open>Every non-empty normalized email of the sheet is on one row only.\<close>

definition emails_unique :: "row list \<Rightarrow> bool" where
  "emails_unique sh \<longleftrightarrow> distinct (filter (\<lambda>e. e \<noteq> []) (map (\<lambda>d. normEmail (d Email)) sh))"

section \<open>Business days (Util.gs)\<close>

text \<open>
  A calendar day is its number of days since 1970-01-01; \<open>days_from_civil\<close> gives the day
  of a date of the Gregorian calendar, so that the holiday list reads as in the source.
  \<open>getDay\<close> is the day of the week (0 for Sunday; 1970-01-01 was a Thursday).
\<close>

definition days_from_civil :: "int \<Rightarrow> int \<Rightarrow> int \<Rightarrow> int" where
  "days_from_civil y m d =
     (let y' = (if m \<le> 2 then y - 1 else y);
          era = y' div 400;
          yoe = y' - era * 400;
          doy = (153 * (if m > 2 then m - 3 else m + 9) + 2) div 5 + d - 1;
          doe = yoe * 365 + yoe div 4 - yoe div 100 + doy
      in era * 146097 + doe - 719468)"

definition getDay :: "int \<Rightarrow> int" where
  "getDay n = (n + 4) mod 7"

definition US_HOLIDAYS :: "(int \<times> int \<times> int) list" where
  "US_HOLIDAYS =
     [(2024, 1, 1), (2024, 1, 15), (2024, 2, 19), (2024, 5, 27), (2024, 7, 4), (2024, 9, 2),
      (2024, 10, 14), (2024, 11, 11), (2024, 11, 28), (2024, 12, 25),
      (2025, 1, 1), (2025, 1, 20), (2025, 2, 17), (2025, 5, 26), (2025, 7, 4), (2025, 9, 1),
      (2025, 10, 13), (2025, 11, 11), (2025, 11, 27), (2025, 12, 25),
      (2026, 1, 1), (2026, 1, 19), (2026, 2, 16), (2026, 5, 25), (2026, 7, 3), (2026, 9, 7),
      (2026, 10, 12), (2026, 11, 11), (2026, 11, 26), (2026, 12, 25)]"

definition holiday_days :: "int list" where
  "holiday_days = map (\<lambda>(y, m, d). days_from_civil y m d) US_HOLIDAYS"

text \<open>
  Instants are counted in hours since 1970-01-01T00:00 UTC. The script runs in the time
  zone \<open>TZ\<close> of Constants.gs; \<open>off\<close> is the number of hours that zone is behind UTC (5 for
  America/New_York in winter), taken as constant over the dates compared. Local midnight
  of day \<open>n\<close> is the instant \<open>24 * n + off\<close>, and an instant \<open>t\<close> falls on the local day
  \<open>(t - off) div 24\<close>. \<open>new Date('2024-01-15')\<close>, a date-only text, is midnight UTC of
  that day: the instant \<open>24 * n\<close>.
\<close>

definition local_midnight :: "int \<Rightarrow> int \<Rightarrow> int" where
  "local_midnight off n = 24 * n + off"

definition local_day :: "int \<Rightarrow> int \<Rightarrow> int" where
  "local_day off t = (t - off) div 24"

text \<open>
  \<open>businessDaysBetween(a, b)\<close>, for two dates given by their local calendar days (the
  source sets both to local midnight first).
\<close>

definition businessDaysBetween :: "int \<Rightarrow> int \<Rightarrow> int \<Rightarrow> int" where
  "businessDaysBetween off a b =
     (let s = local_midnight off a; e = local_midnight off b in
      if e \<le> s then 0
      else
        let totalDays = (e - s) div 24 in
        if totalDays > 14 then
          let fullWeeks = totalDays div 7;
              remainingDays = totalDays mod 7;
              remainingStart = local_day off s + fullWeeks * 7;
              remaining = filter (\<lambda>i. let dayOfWeek = getDay (remainingStart + i)
                                       in dayOfWeek \<noteq> 0 \<and> dayOfWeek \<noteq> 6)
                            [0..remainingDays - 1];
              subtracted = filter (\<lambda>h. let hDate = 24 * h in
                                        hDate \<ge> s \<and> hDate < e \<and>
                                        (let dayOfWeek = getDay (local_day off hDate)
                                         in dayOfWeek \<noteq> 0 \<and> dayOfWeek \<noteq> 6))
                             holiday_days
          in fullWeeks * 5 + int (length remaining) - int (length subtracted)
        else
          int (length (filter (\<lambda>d. let k = getDay d in
                                   k \<noteq> 0 \<and> k \<noteq> 6 \<and> d \<notin> set holiday_days)
                        [local_day off s..local_day off e - 1])))"

text \<open>
  The count the specification asks for: the days from the start day up to, not including,
  the end day that are Monday to Friday and not in the holiday calendar.
\<close>

definition spec_business_days :: "int \<Rightarrow> int \<Rightarrow> int" where
  "spec_business_days a b =
     int (length (filter (\<lambda>d. getDay d \<in> {1, 2, 3, 4, 5} \<and> d \<notin> set holiday_days) [a..b - 1]))"

section \<open>Debounce queue (DebounceQueue.gs)\<close>

text \<open>
  The text stored under \<open>PROP_QUEUE_JOBIDS\<close>: \<open>'all'\<close>, the JSON text of an array of job
  IDs, or a text that does not parse to an array.
\<close>

datatype queue_value = QueueAll | QueueIds "string list" | QueueCorrupt

text \<open>
  A project trigger. \<open>aged\<close> is the outcome of the age test of
  \<open>_cleanupOrphanedTriggers_\<close> (\<open>triggerAge > maxAge\<close>) for this trigger.
\<close>

record trigger =
  uniqueId :: nat
  handlerFunction :: string
  aged :: bool

text \<open>
  The document properties of the queue, the project's triggers, and the identifier that
  the next created trigger receives.
\<close>

record scheduler =
  queueJobIds :: "queue_value option"
  queueScheduled :: "nat option"
  projectTriggers :: "trigger list"
  nextTriggerId :: nat

text \<open>\<open>Array.from(new Set(xs))\<close>: the first occurrences, in order.\<close>

definition setFrom :: "'a list \<Rightarrow> 'a list" where
  "setFrom xs = foldl (\<lambda>acc x. if x \<in> set acc then acc else acc @ [x]) [] xs"

definition cleanupOrphanedTriggers :: "string \<Rightarrow> scheduler \<Rightarrow> scheduler" where
  "cleanupOrphanedTriggers handler st =
     (let trackedIds =
            (if handler = ''Debounced_Reconcile_''
             then (case queueScheduled st of None \<Rightarrow> [] | Some i \<Rightarrow> [i]) else [])
      in st\<lparr>projectTriggers :=
              filter (\<lambda>t. \<not> (handlerFunction t = handler \<and> handler = ''Debounced_Reconcile_'' \<and>
                              uniqueId t \<notin> set trackedIds \<and> aged t))
                (projectTriggers st)\<rparr>)"

text \<open>
  \<open>_scheduleReconcileTrigger()\<close>. \<open>canCreate\<close> says whether creating the trigger succeeds
  (it fails when the permission is missing, and the source then only logs).
\<close>

definition scheduleReconcileTrigger :: "bool \<Rightarrow> scheduler \<Rightarrow> scheduler" where
  "scheduleReconcileTrigger canCreate st0 =
     (let st = cleanupOrphanedTriggers ''Debounced_Reconcile_'' st0;
          create = (\<lambda>st. if canCreate
                     then st\<lparr>projectTriggers := projectTriggers st @
                                 [\<lparr>uniqueId = nextTriggerId st,
                                   handlerFunction = ''Debounced_Reconcile_'', aged = False\<rparr>],
                              queueScheduled := Some (nextTriggerId st),
                              nextTriggerId := Suc (nextTriggerId st)\<rparr>
                     else st)
      in case queueScheduled st of
           None \<Rightarrow> create st
         | Some existingTriggerId \<Rightarrow>
             if list_ex (\<lambda>t. uniqueId t = existingTriggerId) (projectTriggers st) then st
             else create (st\<lparr>queueScheduled := None\<rparr>))"

text \<open>
  \<open>enqueueAndSchedule_Reconcile(jobIds)\<close>. \<open>gotLock\<close> says whether the script lock was
  acquired; writing the property is taken to succeed.
\<close>

definition enqueueAndSchedule_Reconcile ::
  "bool \<Rightarrow> bool \<Rightarrow> string list \<Rightarrow> scheduler \<Rightarrow> scheduler" where
  "enqueueAndSchedule_Reconcile gotLock canCreate jobIds st =
     (if \<not> gotLock then st
      else if queueJobIds st = Some QueueAll then scheduleReconcileTrigger canCreate st
      else
        let existingIds = (case queueJobIds st of Some (QueueIds ids) \<Rightarrow> ids | _ \<Rightarrow> []);
            newIdSet = setFrom (existingIds @ jobIds)
        in scheduleReconcileTrigger canCreate (st\<lparr>queueJobIds := Some (QueueIds newIdSet)\<rparr>))"

definition deleteReconcileTrigger :: "scheduler \<Rightarrow> scheduler" where
  "deleteReconcileTrigger st =
     (case queueScheduled st of
        None \<Rightarrow> st
      | Some triggerId \<Rightarrow>
          st\<lparr>projectTriggers :=
                takeWhile (\<lambda>t. uniqueId t \<noteq> triggerId) (projectTriggers st) @
                drop 1 (dropWhile (\<lambda>t. uniqueId t \<noteq> triggerId) (projectTriggers st)),
              queueScheduled := None\<rparr>)"

text \<open>
  What one run of the worker \<open>Debounced_Reconcile_\<close> reconciles, and the state it leaves.
  \<open>gotLock\<close> says whether \<open>withLock\<close> ran the body (document lock acquired, recursion
  guard clear). The \<open>finally\<close> block deletes the two properties and then calls
  \<open>_deleteReconcileTrigger\<close>, which looks the trigger up by the property just deleted.
\<close>

datatype work = NoWork | FullResync | ScopedReconcile "string list"

definition Debounced_Reconcile :: "bool \<Rightarrow> scheduler \<Rightarrow> work \<times> scheduler" where
  "Debounced_Reconcile gotLock st =
     (if \<not> gotLock then (NoWork, st)
      else
        let job = (case queueJobIds st of
                     None \<Rightarrow> NoWork
                   | Some QueueAll \<Rightarrow> FullResync
                   | Some (QueueIds jobIds) \<Rightarrow>
                       if jobIds = [] then NoWork else ScopedReconcile jobIds
                   | Some QueueCorrupt \<Rightarrow> NoWork)
        in (job, deleteReconcileTrigger (st\<lparr>queueJobIds := None, queueScheduled := None\<rparr>)))"


section \<open>Properties of the normalization utilities\<close>

lemma trim_Nil [simp]: "trim [] = []"
  by (simp add: trim_def)

lemma keyFor_nonempty:
  "trim jobId \<noteq> [] \<or> normEmail email \<noteq> [] \<Longrightarrow>
   keyFor now jobId email = trim jobId @ ''|'' @ normEmail email"
  by (auto simp: keyFor_def Let_def)

lemma escapeForFormula_Cons:
  "escapeForFormula (c # s) =
     (if c = dquote then [dquote, dquote] else [c]) @ escapeForFormula s"
  by (simp add: escapeForFormula_def)

lemma escapeForFormula_Nil [simp]: "escapeForFormula [] = []"
  by (simp add: escapeForFormula_def)

lemma read_lit_plain:
  "c \<noteq> dquote \<Longrightarrow> x \<noteq> [] \<Longrightarrow>
   read_lit (c # x) = map_option (\<lambda>(s, t). (c # s, t)) (read_lit x)"
  by (cases x) auto

lemma read_lit_doubled:
  "read_lit (dquote # dquote # x) = map_option (\<lambda>(s, t). (dquote # s, t)) (read_lit x)"
  by simp

lemma read_lit_close:
  "r = [] \<or> hd r \<noteq> dquote \<Longrightarrow> read_lit (dquote # r) = Some ([], r)"
  by (cases r) auto

lemma read_lit_escape:
  "r = [] \<or> hd r \<noteq> dquote \<Longrightarrow>
   read_lit (escapeForFormula s @ dquote # r) = Some (s, r)"
proof (induction s)
  case Nil
  then show ?case by (simp add: read_lit_close)
next
  case (Cons c s)
  show ?case
  proof (cases "c = dquote")
    case True
    have "read_lit (escapeForFormula (c # s) @ dquote # r)
          = read_lit (dquote # dquote # (escapeForFormula s @ dquote # r))"
      using True by (simp add: escapeForFormula_Cons)
    also have "\<dots> = Some (c # s, r)"
      using True Cons by (simp only: read_lit_doubled) simp
    finally show ?thesis .
  next
    case False
    have "read_lit (escapeForFormula (c # s) @ dquote # r)
          = read_lit (c # (escapeForFormula s @ dquote # r))"
      using False by (simp add: escapeForFormula_Cons)
    also have "\<dots> = map_option (\<lambda>(s, t). (c # s, t)) (read_lit (escapeForFormula s @ dquote # r))"
      using False by (rule read_lit_plain) simp
    also have "\<dots> = Some (c # s, r)"
      using Cons by simp
    finally show ?thesis .
  qed
qed

lemma parse_hyperlink_formula:
  "parse_hyperlink (hyperlink_formula u l) = Some (u, l)"
proof -
  have a: "read_lit (escapeForFormula u @ dquote # ('','' @ [dquote] @ escapeForFormula l @ [dquote] @ '')''))
        = Some (u, '','' @ [dquote] @ escapeForFormula l @ [dquote] @ '')'')"
    by (rule read_lit_escape) (simp add: dquote_def)
  have b: "read_lit (escapeForFormula l @ dquote # '')'') = Some (l, '')'')"
    by (rule read_lit_escape) (simp add: dquote_def)
  show ?thesis
    using a b by (simp add: parse_hyperlink_def hyperlink_formula_def strip_prefix_def)
qed

lemma lower_char_other:
  "c \<notin> set ''ABCDEFGHIJKLMNOPQRSTUVWXYZ'' \<Longrightarrow> lower_char c = c"
proof -
  assume a: "c \<notin> set ''ABCDEFGHIJKLMNOPQRSTUVWXYZ''"
  have "map fst (zip ''ABCDEFGHIJKLMNOPQRSTUVWXYZ'' ''abcdefghijklmnopqrstuvwxyz'')
        = ''ABCDEFGHIJKLMNOPQRSTUVWXYZ''"
    by (rule map_fst_zip) simp
  then have "c \<notin> fst ` set (zip ''ABCDEFGHIJKLMNOPQRSTUVWXYZ'' ''abcdefghijklmnopqrstuvwxyz'')"
    using a by (metis set_map)
  then have "map_of (zip ''ABCDEFGHIJKLMNOPQRSTUVWXYZ'' ''abcdefghijklmnopqrstuvwxyz'') c = None"
    by (meson map_of_eq_None_iff)
  then show ?thesis
    unfolding lower_char_def by simp
qed

lemma lower_char_upper:
  "c \<in> set ''ABCDEFGHIJKLMNOPQRSTUVWXYZ'' \<Longrightarrow>
     lower_char c \<notin> set ''ABCDEFGHIJKLMNOPQRSTUVWXYZ'' \<and> \<not> is_space (lower_char c) \<and>
     lower_char c \<noteq> CHR ''@'' \<and> lower_char c \<noteq> CHR ''.'' \<and>
     lower_char c \<noteq> CHR ''+'' \<and> lower_char c \<noteq> CHR ''|'' \<and> \<not> is_space c \<and>
     c \<noteq> CHR ''@'' \<and> c \<noteq> CHR ''.'' \<and> c \<noteq> CHR ''+'' \<and> c \<noteq> CHR ''|''"
  apply (simp only: set_simps insert_iff empty_iff)
  apply (elim disjE FalseE)
  apply (simp_all add: lower_char_def is_space_def)
  done

lemma lower_char_idem: "lower_char (lower_char c) = lower_char c"
  by (cases "c \<in> set ''ABCDEFGHIJKLMNOPQRSTUVWXYZ''")
     (use lower_char_upper lower_char_other in metis)+

lemma lower_char_space [simp]: "is_space (lower_char c) = is_space c"
  by (cases "c \<in> set ''ABCDEFGHIJKLMNOPQRSTUVWXYZ''")
     (use lower_char_upper lower_char_other in metis)+

lemma lower_char_eq_iff:
  "d \<in> {CHR ''@'', CHR ''.'', CHR ''+'', CHR ''|''} \<Longrightarrow> lower_char c = d \<longleftrightarrow> c = d"
  by (cases "c \<in> set ''ABCDEFGHIJKLMNOPQRSTUVWXYZ''")
     (use lower_char_upper lower_char_other in \<open>metis insertE singletonD\<close>)+

lemma toLowerCase_idem: "toLowerCase (toLowerCase s) = toLowerCase s"
  by (simp add: toLowerCase_def lower_char_idem)

lemma toLowerCase_fixed: "\<forall>c \<in> set x. lower_char c = c \<Longrightarrow> toLowerCase x = x"
  by (simp add: toLowerCase_def map_idI)

lemma toLowerCase_chars: "c \<in> set (toLowerCase t) \<Longrightarrow> lower_char c = c"
  by (auto simp: toLowerCase_def lower_char_idem)

lemma first_part_takeWhile: "first_part d s = takeWhile (\<lambda>c. c \<noteq> d) s"
  by (induction s) (auto simp: first_part_def split: list.splits)

lemma split_on_not_Nil [simp]: "split_on d x \<noteq> []"
  by (induction x) (auto split: list.splits)

lemma split_on_two:
  "split_on d x = [a, b] \<Longrightarrow> x = a @ d # b \<and> d \<notin> set a \<and> d \<notin> set b"
proof (induction x arbitrary: a)
  case Nil
  then show ?case by simp
next
  case (Cons c x)
  show ?case
  proof (cases "c = d")
    case True
    with Cons.prems have a: "a = []" and sb: "split_on d x = [b]" by auto
    have "d \<notin> set x \<and> x = b" using sb
    proof (induction x arbitrary: b)
      case Nil
      then show ?case by simp
    next
      case (Cons e x)
      then show ?case by (auto split: if_splits list.splits)
    qed
    with a True show ?thesis by auto
  next
    case False
    with Cons.prems obtain p where p: "split_on d x = [p, b]" and a: "a = c # p"
      by (auto split: list.splits)
    from Cons.IH [OF p] a False show ?thesis by simp
  qed
qed

lemma split_on_none: "d \<notin> set x \<Longrightarrow> split_on d x = [x]"
  by (induction x) auto

lemma split_on_append:
  "d \<notin> set a \<Longrightarrow> split_on d (a @ d # b) = a # split_on d b"
  by (induction a) auto

lemma normEmail_lower: "toLowerCase (normEmail s) = normEmail s"
proof -
  define email where "email = toLowerCase (trim s)"
  have fx: "\<forall>c \<in> set email. lower_char c = c"
    using toLowerCase_chars by (auto simp: email_def)
  have g: "toLowerCase ''@gmail.com'' = ''@gmail.com''"
    by (simp add: toLowerCase_def lower_char_def)
  have sub: "toLowerCase (takeWhile P (filter Q l)) = takeWhile P (filter Q l)"
    if "split_on CHR ''@'' email = [l, b]" for P Q l b
  proof -
    have "set l \<subseteq> set email" using split_on_two [OF that] by auto
    then have "\<forall>c \<in> set (takeWhile P (filter Q l)). lower_char c = c"
      using fx by (meson filter_is_subset set_takeWhileD subsetD)
    then show ?thesis by (rule toLowerCase_fixed)
  qed
  have e: "toLowerCase email = email"
    using fx by (rule toLowerCase_fixed)
  have app: "toLowerCase (x @ y) = toLowerCase x @ toLowerCase y" for x y
    by (simp add: toLowerCase_def)
  show ?thesis
    unfolding normEmail_def Let_def email_def [symmetric]
    using e g sub
    by (auto split: list.splits simp: first_part_takeWhile app)
qed


text \<open>
  C6. \<open>normEmail\<close> on the two addresses of the specification; the result is always in
  lower case. Every input is first trimmed and lower-cased. When that text is a local part
  without \<open>@\<close>, one \<open>@\<close> and the domain \<open>gmail.com\<close> or \<open>googlemail.com\<close>, the result is
  the local part without its dots and without everything from the first \<open>+\<close>, at
  \<open>gmail.com\<close>. For every other input (no \<open>@\<close>, several \<open>@\<close>, another domain) the result
  is the trimmed, lower-cased text itself, with no alias folding.
\<close>

theorem normEmail_spec:
  "normEmail ''John.Doe+promo@gmail.com'' = ''johndoe@gmail.com'' \<and>
   normEmail ''John.Doe+promo@company.com'' = ''john.doe+promo@company.com'' \<and>
   toLowerCase (normEmail s) = normEmail s \<and>
   (\<forall>local domain.
      toLowerCase (trim s) = local @ ''@'' @ domain \<and> CHR ''@'' \<notin> set local \<and>
      (domain = ''gmail.com'' \<or> domain = ''googlemail.com'') \<longrightarrow>
      normEmail s =
        takeWhile (\<lambda>c. c \<noteq> CHR ''+'') (filter (\<lambda>c. c \<noteq> CHR ''.'') local) @ ''@gmail.com'') \<and>
   ((\<forall>local domain.
       toLowerCase (trim s) = local @ ''@'' @ domain \<and> CHR ''@'' \<notin> set local \<longrightarrow>
       domain \<noteq> ''gmail.com'' \<and> domain \<noteq> ''googlemail.com'') \<longrightarrow>
    normEmail s = toLowerCase (trim s))"
proof -
  define e where "e = toLowerCase (trim s)"
  have 1: "normEmail ''John.Doe+promo@gmail.com'' = ''johndoe@gmail.com''"
    by code_simp
  have 2: "normEmail ''John.Doe+promo@company.com'' = ''john.doe+promo@company.com''"
    by code_simp
  have g: "normEmail s =
        takeWhile (\<lambda>c. c \<noteq> CHR ''+'') (filter (\<lambda>c. c \<noteq> CHR ''.'') local) @ ''@gmail.com''"
    if d: "e = local @ ''@'' @ domain" "CHR ''@'' \<notin> set local"
      "domain = ''gmail.com'' \<or> domain = ''googlemail.com''" for local domain
  proof -
    have nd: "CHR ''@'' \<notin> set domain" using d(3) by auto
    have sp: "split_on CHR ''@'' e = [local, domain]"
      unfolding d(1) using split_on_append [OF d(2), of domain] split_on_none [OF nd] by simp
    have ne: "e \<noteq> []" "CHR ''@'' \<in> set e" using d(1) by auto
    show ?thesis
      unfolding normEmail_def Let_def e_def [symmetric] sp
      using ne d(3) by (auto simp: first_part_takeWhile)
  qed
  have o: "normEmail s = e"
    if h: "\<forall>local domain. e = local @ ''@'' @ domain \<and> CHR ''@'' \<notin> set local \<longrightarrow>
             domain \<noteq> ''gmail.com'' \<and> domain \<noteq> ''googlemail.com''"
  proof -
    have "domain \<noteq> ''gmail.com'' \<and> domain \<noteq> ''googlemail.com''"
      if "split_on CHR ''@'' e = [local, domain]" for local domain
    proof -
      from split_on_two [OF that]
      have "e = local @ ''@'' @ domain \<and> CHR ''@'' \<notin> set local" by simp
      then show ?thesis using h by blast
    qed
    then show ?thesis
      unfolding normEmail_def Let_def e_def [symmetric]
      by (auto split: list.splits)
  qed
  show ?thesis
    using 1 2 g o normEmail_lower [of s] unfolding e_def by blast
qed

text \<open>
  The theorem on a Gmail family address with dots and a tag, a text without \<open>@\<close>, an
  address of another domain, and a text with two \<open>@\<close>.
\<close>

theorem normEmail_spec_witness:
  "normEmail '' A.b+c@GoogleMail.com '' = ''ab@gmail.com'' \<and>
   normEmail ''  Plain-Name '' = ''plain-name'' \<and>
   normEmail ''A.b+c@Corp.org'' = ''a.b+c@corp.org'' \<and>
   normEmail ''x@Y@gmail.com'' = ''x@y@gmail.com''"
proof -
  have t: "toLowerCase (trim '' A.b+c@GoogleMail.com '') = ''a.b+c'' @ ''@'' @ ''googlemail.com''"
    "toLowerCase (trim ''  Plain-Name '') = ''plain-name''"
    "toLowerCase (trim ''A.b+c@Corp.org'') = ''a.b+c@corp.org''"
    "toLowerCase (trim ''x@Y@gmail.com'') = ''x@y@gmail.com''"
    by code_simp+
  have n1: "\<forall>local domain. ''plain-name'' = local @ ''@'' @ domain \<and> CHR ''@'' \<notin> set local \<longrightarrow>
       domain \<noteq> ''gmail.com'' \<and> domain \<noteq> ''googlemail.com''"
  proof (intro allI impI)
    fix local domain :: string
    assume "''plain-name'' = local @ ''@'' @ domain \<and> CHR ''@'' \<notin> set local"
    then have "CHR ''@'' \<in> set ''plain-name''" by (metis append_Cons in_set_conv_decomp)
    then show "domain \<noteq> ''gmail.com'' \<and> domain \<noteq> ''googlemail.com''" by simp
  qed
  have dec: "x = local @ ''@'' @ domain \<and> CHR ''@'' \<notin> set local \<Longrightarrow>
       local = takeWhile (\<lambda>c. c \<noteq> CHR ''@'') x \<and> domain = tl (dropWhile (\<lambda>c. c \<noteq> CHR ''@'') x)"
    for x local domain :: string
    by (auto simp: takeWhile_append dropWhile_append takeWhile_eq_all_conv)
  have n2: "\<forall>local domain. ''a.b+c@corp.org'' = local @ ''@'' @ domain \<and> CHR ''@'' \<notin> set local \<longrightarrow>
       domain \<noteq> ''gmail.com'' \<and> domain \<noteq> ''googlemail.com''"
    using dec [of "''a.b+c@corp.org''"] by auto
  have n3: "\<forall>local domain. ''x@y@gmail.com'' = local @ ''@'' @ domain \<and> CHR ''@'' \<notin> set local \<longrightarrow>
       domain \<noteq> ''gmail.com'' \<and> domain \<noteq> ''googlemail.com''"
    using dec [of "''x@y@gmail.com''"] by auto
  have a: "normEmail '' A.b+c@GoogleMail.com '' = ''ab@gmail.com''"
    using normEmail_spec [of "'' A.b+c@GoogleMail.com ''", THEN conjunct2, THEN conjunct2,
        THEN conjunct2, THEN conjunct1, THEN spec, THEN spec, of "''a.b+c''" "''googlemail.com''"] t(1)
    by simp
  have b: "normEmail ''  Plain-Name '' = ''plain-name''"
    using normEmail_spec [of "''  Plain-Name ''"] n1 unfolding t(2) by simp
  have c: "normEmail ''A.b+c@Corp.org'' = ''a.b+c@corp.org''"
    using normEmail_spec [of "''A.b+c@Corp.org''"] n2 unfolding t(3) by simp
  have d: "normEmail ''x@Y@gmail.com'' = ''x@y@gmail.com''"
    using normEmail_spec [of "''x@Y@gmail.com''"] n3 unfolding t(4) by simp
  show ?thesis using a b c d by simp
qed

text \<open>
  C10. \<open>setHyperlink\<close> leaves the cell unchanged unless the trimmed URL passes the protocol
  test; when it does, the cell receives the \<open>HYPERLINK\<close> formula with both arguments
  escaped, and the formula reads back as exactly that URL and that label, whatever quote
  characters they contain.
\<close>

theorem setHyperlink_safe:
  "(\<not> url_allowed (trim url) \<longrightarrow> setHyperlink cell url label = cell) \<and>
   (url_allowed (trim url) \<longrightarrow>
      setHyperlink cell url label = hyperlink_formula (trim url) label \<and>
      parse_hyperlink (setHyperlink cell url label) = Some (trim url, label))"
proof -
  have "url_allowed u \<Longrightarrow> u \<noteq> []" for u
    by (auto simp: url_allowed_def starts_ci_def)
  then show ?thesis
    by (auto simp: setHyperlink_def Let_def parse_hyperlink_formula)
qed

theorem setHyperlink_safe_witness:
  "\<not> url_allowed (trim ''javascript:alert(1)'') \<and>
   setHyperlink ''old'' ''javascript:alert(1)'' ''x'' = ''old'' \<and>
   url_allowed (trim ('' HTTPS://a.b/c'' @ [dquote] @ ''d '')) \<and>
   parse_hyperlink (setHyperlink ''old'' ('' HTTPS://a.b/c'' @ [dquote] @ ''d '') (''Re'' @ [dquote] @ '')''))
     = Some (''HTTPS://a.b/c'' @ [dquote] @ ''d'', ''Re'' @ [dquote] @ '')'')"
proof -
  have n: "\<not> url_allowed (trim ''javascript:alert(1)'')"
    by code_simp
  have t: "trim ('' HTTPS://a.b/c'' @ [dquote] @ ''d '') = ''HTTPS://a.b/c'' @ [dquote] @ ''d''"
    by code_simp
  have y: "url_allowed (trim ('' HTTPS://a.b/c'' @ [dquote] @ ''d ''))"
    by code_simp
  show ?thesis
    using n t y
      setHyperlink_safe [of "''javascript:alert(1)''" "''old''" "''x''"]
      setHyperlink_safe [of "'' HTTPS://a.b/c'' @ [dquote] @ ''d ''" "''old''"
        "''Re'' @ [dquote] @ '')''"]
    by (simp add: parse_hyperlink_formula)
qed

lemma digits_not_Nil: "digits n \<noteq> []"
  by (subst digits.simps) simp

lemma of_date_truthy [simp]: "truthy (of_date t)" "of_date t \<noteq> []"
  by (simp_all add: truthy_def of_date_def digits_not_Nil)

lemma trim_literals [simp]:
  "trim ''Open'' = ''Open''" "trim ''On Hold'' = ''On Hold''" "trim ''Hired'' = ''Hired''"
  "trim ''Closed'' = ''Closed''"
  by (simp_all add: trim_def is_space_def)

lemma req_step:
  "i < length sh \<Longrightarrow>
   applyReqStatusTransitionsForRows now [i] sh =
     sh[i := writeCells H_REQ (sh ! i) (reqStatusUpdates H_REQ now (sh ! i))]"
  by (simp add: applyReqStatusTransitionsForRows_def getRowObjectByHeaders_def Let_def
      setRowValuesByHeaders_def writeCells_def)

lemma req_step_length [simp]:
  "length (applyReqStatusTransitionsForRows now rows sh) = length sh"
proof -
  have "length (foldl (\<lambda>sh r.
        let rowObj = getRowObjectByHeaders sh r; up = reqStatusUpdates H_REQ now rowObj in
        if up \<noteq> [] then setRowValuesByHeaders H_REQ r up sh else sh) sh rows) = length sh"
    by (induction rows arbitrary: sh) (simp_all add: Let_def setRowValuesByHeaders_def)
  then show ?thesis by (simp add: applyReqStatusTransitionsForRows_def)
qed

text \<open>
  C3. A requisition row whose four date cells are blank is set to Open, then to On Hold,
  then to Open again, the transition engine running after each edit (at the clock readings
  \<open>t1\<close>, \<open>t2\<close>, \<open>t3\<close>): the Opened Date is stamped at the first Open and keeps that
  value; the On Hold Date is stamped on the transition to On Hold and blank again after
  the return to Open.
\<close>

theorem req_open_hold_open:
  "i < length sh \<Longrightarrow>
   (sh ! i) Opened = [] \<Longrightarrow> (sh ! i) OnHoldDate = [] \<Longrightarrow>
   (sh ! i) ClosedDate = [] \<Longrightarrow> (sh ! i) PositionHiredDate = [] \<Longrightarrow>
   s1 = applyReqStatusTransitionsForRows t1 [i] (sh[i := (sh ! i)(JobStatus := ''Open'')]) \<Longrightarrow>
   s2 = applyReqStatusTransitionsForRows t2 [i] (s1[i := (s1 ! i)(JobStatus := ''On Hold'')]) \<Longrightarrow>
   s3 = applyReqStatusTransitionsForRows t3 [i] (s2[i := (s2 ! i)(JobStatus := ''Open'')]) \<Longrightarrow>
   (s1 ! i) Opened = of_date t1 \<and> truthy (of_date t1) \<and> (s1 ! i) OnHoldDate = [] \<and>
   (s2 ! i) Opened = of_date t1 \<and> (s2 ! i) OnHoldDate = of_date t2 \<and> truthy (of_date t2) \<and>
   (s3 ! i) Opened = of_date t1 \<and> (s3 ! i) OnHoldDate = []"
proof -
  assume i: "i < length sh"
    and b: "(sh ! i) Opened = []" "(sh ! i) OnHoldDate = []" "(sh ! i) ClosedDate = []"
      "(sh ! i) PositionHiredDate = []"
    and s1: "s1 = applyReqStatusTransitionsForRows t1 [i] (sh[i := (sh ! i)(JobStatus := ''Open'')])"
    and s2: "s2 = applyReqStatusTransitionsForRows t2 [i] (s1[i := (s1 ! i)(JobStatus := ''On Hold'')])"
    and s3: "s3 = applyReqStatusTransitionsForRows t3 [i] (s2[i := (s2 ! i)(JobStatus := ''Open'')])"
  have l1: "i < length s1" using i s1 by simp
  have l2: "i < length s2" using l1 s2 by simp
  have r1: "(s1 ! i) Opened = of_date t1 \<and> (s1 ! i) OnHoldDate = [] \<and> (s1 ! i) ClosedDate = []
      \<and> (s1 ! i) PositionHiredDate = []"
    using i b unfolding s1
    by (simp add: req_step reqStatusUpdates_def normStr_def writeCells_def H_REQ_def truthy_def)
  have r2: "(s2 ! i) Opened = of_date t1 \<and> (s2 ! i) OnHoldDate = of_date t2 \<and> (s2 ! i) ClosedDate = []
      \<and> (s2 ! i) PositionHiredDate = []"
    using l1 r1 unfolding s2
    by (simp add: req_step reqStatusUpdates_def normStr_def writeCells_def H_REQ_def truthy_def)
  have r3: "(s3 ! i) Opened = of_date t1 \<and> (s3 ! i) OnHoldDate = []"
    using l2 r2 unfolding s3
    by (simp add: req_step reqStatusUpdates_def normStr_def writeCells_def H_REQ_def truthy_def)
  show ?thesis using r1 r2 r3 by simp
qed

theorem req_open_hold_open_witness:
  "(0::nat) < length [blank_row] \<and> ([blank_row] ! 0) Opened = [] \<and>
   (let s1 = applyReqStatusTransitionsForRows 100 [0] ([blank_row][0 := ([blank_row] ! 0)(JobStatus := ''Open'')]);
        s2 = applyReqStatusTransitionsForRows 200 [0] (s1[0 := (s1 ! 0)(JobStatus := ''On Hold'')]);
        s3 = applyReqStatusTransitionsForRows 300 [0] (s2[0 := (s2 ! 0)(JobStatus := ''Open'')])
    in (s1 ! 0) Opened = ''100'' \<and> (s2 ! 0) OnHoldDate = ''200'' \<and>
       (s3 ! 0) Opened = ''100'' \<and> (s3 ! 0) OnHoldDate = [])"
  using req_open_hold_open [OF _ _ _ _ _ refl refl refl, of 0 "[blank_row]" 100 200 300]
  by (simp add: blank_row_def Let_def of_date_def digits.simps)

lemma holiday_days_eval:
  "holiday_days = [19723, 19737, 19772, 19870, 19908, 19968, 20010, 20038, 20055, 20082,
     20089, 20108, 20136, 20234, 20273, 20332, 20374, 20403, 20419, 20447,
     20454, 20472, 20500, 20598, 20637, 20703, 20738, 20768, 20783, 20812]"
  by (simp add: holiday_days_def US_HOLIDAYS_def days_from_civil_def)


text \<open>
  C8. The scenario of the specification: the start is Monday 2024-01-08 and the end is
  Tuesday 2024-01-23, fifteen days later, with the holiday of Monday 2024-01-15 between
  them. The count asked for is 10; the branch for ranges of more than 14 days returns 11,
  because it reads the holiday as midnight UTC, which is Sunday evening in the script's
  time zone, and so does not subtract it. The day-by-day branch, taken for the range that
  ends one day earlier, subtracts it and returns 9.
\<close>

theorem businessDaysBetween_holiday_missed:
  "getDay (days_from_civil 2024 1 8) = 1 \<and>
   days_from_civil 2024 1 23 - days_from_civil 2024 1 8 = 15 \<and>
   businessDaysBetween 5 (days_from_civil 2024 1 8) (days_from_civil 2024 1 23) = 11 \<and>
   spec_business_days (days_from_civil 2024 1 8) (days_from_civil 2024 1 23) = 10 \<and>
   businessDaysBetween 5 (days_from_civil 2024 1 8) (days_from_civil 2024 1 22) = 9"
proof -
  have d: "days_from_civil 2024 1 8 = 19730" "days_from_civil 2024 1 23 = 19745"
    "days_from_civil 2024 1 22 = 19744"
    by (simp_all add: days_from_civil_def)
  have u: "[19730..19744] = [19730, 19731, 19732, 19733, 19734, 19735, 19736, 19737, 19738,
      19739, 19740, 19741, 19742, 19743, 19744::int]"
    by (simp add: upto_rec_numeral)
  have v: "[19730..19743] = [19730, 19731, 19732, 19733, 19734, 19735, 19736, 19737, 19738,
      19739, 19740, 19741, 19742, 19743::int]"
    by (simp add: upto_rec_numeral)
  have 1: "businessDaysBetween 5 19730 19745 = 11"
    by (simp add: businessDaysBetween_def local_midnight_def local_day_def Let_def getDay_def
        holiday_days_eval upto_rec_numeral)
  have 2: "spec_business_days 19730 19745 = 10"
    by (simp add: spec_business_days_def u getDay_def holiday_days_eval)
  have 3: "businessDaysBetween 5 19730 19744 = 9"
    by (simp add: businessDaysBetween_def local_midnight_def local_day_def Let_def getDay_def
        holiday_days_eval v)
  show ?thesis
    using 1 2 3 by (simp add: d getDay_def)
qed

lemma setFrom_foldl_distinct:
  "distinct (acc @ xs) \<Longrightarrow>
   foldl (\<lambda>acc x. if x \<in> set acc then acc else acc @ [x]) acc xs = acc @ xs"
  by (induction xs arbitrary: acc) auto

lemma setFrom_foldl_inv:
  "distinct acc \<Longrightarrow>
   distinct (foldl (\<lambda>acc x. if x \<in> set acc then acc else acc @ [x]) acc xs)"
  by (induction xs arbitrary: acc) auto

lemma distinct_setFrom: "distinct (setFrom xs)"
  by (simp add: setFrom_def setFrom_foldl_inv)

lemma setFrom_foldl_set:
  "set (foldl (\<lambda>acc x. if x \<in> set acc then acc else acc @ [x]) acc xs) = set acc \<union> set xs"
  by (induction xs arbitrary: acc) auto

lemma set_setFrom [simp]: "set (setFrom xs) = set xs"
  by (simp add: setFrom_def setFrom_foldl_set)

lemma setFrom_merge: "setFrom (setFrom xs @ ys) = setFrom (xs @ ys)"
proof -
  have "foldl (\<lambda>acc x. if x \<in> set acc then acc else acc @ [x]) [] (setFrom xs) = setFrom xs"
    using setFrom_foldl_distinct [of "[]" "setFrom xs"] by (simp add: distinct_setFrom)
  then show ?thesis by (simp add: setFrom_def)
qed

lemma setFrom_Nil [simp]: "setFrom [] = []"
  by (simp add: setFrom_def)

text \<open>
  C9. From a state with an empty queue and no scheduled marker (the state at the start and
  after every run of the worker; triggers of earlier runs may still be in the project),
  two calls of \<open>enqueueAndSchedule_Reconcile\<close> (lock acquired, trigger creation permitted)
  schedule one run: the first call creates one trigger for the worker and tracks it, the
  second creates none and keeps the marker, so a project without worker triggers has
  exactly one afterwards. The queue holds the job IDs of both calls, each once. The
  worker run reconciles that whole list in one scoped run and leaves the queue empty and
  the marker cleared.
\<close>

theorem debounce_coalesce:
  "queueJobIds st = None \<Longrightarrow> queueScheduled st = None \<Longrightarrow>
   st1 = enqueueAndSchedule_Reconcile True True ids1 st \<Longrightarrow>
   st2 = enqueueAndSchedule_Reconcile True True ids2 st1 \<Longrightarrow>
   projectTriggers st1 =
     filter (\<lambda>t. \<not> (handlerFunction t = ''Debounced_Reconcile_'' \<and> aged t)) (projectTriggers st) @
       [\<lparr>uniqueId = nextTriggerId st, handlerFunction = ''Debounced_Reconcile_'', aged = False\<rparr>] \<and>
   queueScheduled st1 = Some (nextTriggerId st) \<and>
   projectTriggers st2 = projectTriggers st1 \<and>
   queueScheduled st2 = queueScheduled st1 \<and>
   ((\<forall>t \<in> set (projectTriggers st). handlerFunction t \<noteq> ''Debounced_Reconcile_'') \<longrightarrow>
      length (filter (\<lambda>t. handlerFunction t = ''Debounced_Reconcile_'') (projectTriggers st2)) = 1) \<and>
   queueJobIds st2 = Some (QueueIds (setFrom (ids1 @ ids2))) \<and>
   distinct (setFrom (ids1 @ ids2)) \<and>
   set (setFrom (ids1 @ ids2)) = set ids1 \<union> set ids2 \<and>
   fst (Debounced_Reconcile True st2) =
     (if ids1 @ ids2 = [] then NoWork else ScopedReconcile (setFrom (ids1 @ ids2))) \<and>
   queueJobIds (snd (Debounced_Reconcile True st2)) = None \<and>
   queueScheduled (snd (Debounced_Reconcile True st2)) = None"
proof -
  assume q: "queueJobIds st = None" and s: "queueScheduled st = None"
    and st1: "st1 = enqueueAndSchedule_Reconcile True True ids1 st"
    and st2: "st2 = enqueueAndSchedule_Reconcile True True ids2 st1"
  let ?W = "''Debounced_Reconcile_''"
  let ?new = "\<lparr>uniqueId = nextTriggerId st, handlerFunction = ?W, aged = False\<rparr>"
  let ?old = "filter (\<lambda>t. \<not> (handlerFunction t = ?W \<and> aged t)) (projectTriggers st)"
  have e1: "st1 = st\<lparr>queueJobIds := Some (QueueIds (setFrom ids1)),
                     projectTriggers := ?old @ [?new],
                     queueScheduled := Some (nextTriggerId st),
                     nextTriggerId := Suc (nextTriggerId st)\<rparr>"
    unfolding st1
    by (simp add: enqueueAndSchedule_Reconcile_def q s scheduleReconcileTrigger_def
        cleanupOrphanedTriggers_def Let_def)
  have again: "(\<lambda>x. (handlerFunction x = ?W \<longrightarrow> \<not> aged x) \<and>
                     (handlerFunction x = ?W \<longrightarrow> uniqueId x = nextTriggerId st \<or> \<not> aged x))
               = (\<lambda>t. handlerFunction t = ?W \<longrightarrow> \<not> aged t)"
    by auto
  have e2: "st2 = st1\<lparr>queueJobIds := Some (QueueIds (setFrom (ids1 @ ids2)))\<rparr>"
    unfolding st2
    by (simp add: e1 enqueueAndSchedule_Reconcile_def scheduleReconcileTrigger_def
        cleanupOrphanedTriggers_def Let_def again setFrom_merge)
  have one: "length (filter (\<lambda>t. handlerFunction t = ?W) (projectTriggers st2)) = 1"
    if "\<forall>t \<in> set (projectTriggers st). handlerFunction t \<noteq> ?W"
  proof -
    have "filter (\<lambda>t. handlerFunction t = ?W) ?old = []"
      using that by (simp add: filter_empty_conv)
    then show ?thesis by (simp add: e2 e1)
  qed
  have nil: "setFrom (ids1 @ ids2) = [] \<longleftrightarrow> ids1 @ ids2 = []"
    by (metis set_setFrom set_empty)
  have w: "fst (Debounced_Reconcile True st2) =
     (if ids1 @ ids2 = [] then NoWork else ScopedReconcile (setFrom (ids1 @ ids2)))"
    using nil by (simp add: e2 Debounced_Reconcile_def Let_def)
  have c: "queueJobIds (snd (Debounced_Reconcile True st2)) = None"
    "queueScheduled (snd (Debounced_Reconcile True st2)) = None"
    by (simp_all add: Debounced_Reconcile_def Let_def deleteReconcileTrigger_def)
  have p1: "projectTriggers st1 = ?old @ [?new]" "queueScheduled st1 = Some (nextTriggerId st)"
    by (simp_all add: e1)
  have p2: "projectTriggers st2 = projectTriggers st1" "queueScheduled st2 = queueScheduled st1"
    "queueJobIds st2 = Some (QueueIds (setFrom (ids1 @ ids2)))"
    by (simp_all add: e2)
  have d: "distinct (setFrom (ids1 @ ids2))" "set (setFrom (ids1 @ ids2)) = set ids1 \<union> set ids2"
    by (simp_all add: distinct_setFrom)
  show ?thesis
    by (intro conjI impI) (fact p1 p2 one w c d)+
qed

text \<open>
  The theorem on the calls of the specification, \<open>[J1]\<close> then \<open>[J2]\<close>, from an empty
  project, and then, after the worker has run, on two calls with repeated job IDs.
\<close>

theorem debounce_coalesce_witness:
  "(let st1 = enqueueAndSchedule_Reconcile True True [''J1'']
              \<lparr>queueJobIds = None, queueScheduled = None, projectTriggers = [], nextTriggerId = 7\<rparr>;
         st2 = enqueueAndSchedule_Reconcile True True [''J2''] st1;
         st3 = snd (Debounced_Reconcile True st2);
         st4 = enqueueAndSchedule_Reconcile True True [''J1'', ''J2''] st3;
         st5 = enqueueAndSchedule_Reconcile True True [''J2'', ''J3'', ''J2''] st4
     in map uniqueId (projectTriggers st2) = [7] \<and>
        queueJobIds st2 = Some (QueueIds [''J1'', ''J2'']) \<and>
        fst (Debounced_Reconcile True st2) = ScopedReconcile [''J1'', ''J2''] \<and>
        map uniqueId (projectTriggers st3) = [7] \<and>
        map uniqueId (projectTriggers st4) = [7, 8] \<and>
        map uniqueId (projectTriggers st5) = [7, 8] \<and>
        queueJobIds st5 = Some (QueueIds [''J1'', ''J2'', ''J3'']) \<and>
        fst (Debounced_Reconcile True st5) = ScopedReconcile [''J1'', ''J2'', ''J3''])"
proof -
  define st0 where
    "st0 = \<lparr>queueJobIds = None, queueScheduled = None, projectTriggers = [], nextTriggerId = 7\<rparr>"
  define st1 where "st1 = enqueueAndSchedule_Reconcile True True [''J1''] st0"
  define st2 where "st2 = enqueueAndSchedule_Reconcile True True [''J2''] st1"
  define st3 where "st3 = snd (Debounced_Reconcile True st2)"
  define st4 where "st4 = enqueueAndSchedule_Reconcile True True [''J1'', ''J2''] st3"
  define st5 where "st5 = enqueueAndSchedule_Reconcile True True [''J2'', ''J3'', ''J2''] st4"
  note a = debounce_coalesce [OF _ _ st1_def st2_def]
  have h0: "queueJobIds st0 = None" "queueScheduled st0 = None" "projectTriggers st0 = []"
    "nextTriggerId st0 = 7"
    by (simp_all add: st0_def)
  note a' = a [OF h0(1,2)]
  have h3: "queueJobIds st3 = None" "queueScheduled st3 = None"
    using a' by (simp_all add: st3_def)
  have t3: "projectTriggers st3 = projectTriggers st2" "nextTriggerId st3 = 8"
    by (simp_all add: st3_def Debounced_Reconcile_def Let_def deleteReconcileTrigger_def
        st2_def st1_def st0_def enqueueAndSchedule_Reconcile_def scheduleReconcileTrigger_def
        cleanupOrphanedTriggers_def setFrom_def)
  note b = debounce_coalesce [OF h3 st4_def st5_def]
  have s: "setFrom [''J1'', ''J2''] = [''J1'', ''J2'']"
    "setFrom [''J1'', ''J2'', ''J2'', ''J3'', ''J2''] = [''J1'', ''J2'', ''J3'']"
    by (simp_all add: setFrom_def)
  have r: "map uniqueId (projectTriggers st2) = [7] \<and>
        queueJobIds st2 = Some (QueueIds [''J1'', ''J2'']) \<and>
        fst (Debounced_Reconcile True st2) = ScopedReconcile [''J1'', ''J2''] \<and>
        map uniqueId (projectTriggers st3) = [7] \<and>
        map uniqueId (projectTriggers st4) = [7, 8] \<and>
        map uniqueId (projectTriggers st5) = [7, 8] \<and>
        queueJobIds st5 = Some (QueueIds [''J1'', ''J2'', ''J3'']) \<and>
        fst (Debounced_Reconcile True st5) = ScopedReconcile [''J1'', ''J2'', ''J3'']"
    using a' b by (simp add: h0 t3 s)
  show ?thesis
    using r unfolding st0_def st1_def st2_def st3_def st4_def st5_def Let_def .
qed

lemma normEmail_Nil [simp]: "normEmail [] = []"
  by (simp add: normEmail_def toLowerCase_def)

lemma scan_step:
  fixes E :: "nat \<Rightarrow> string"
  assumes "k < n"
  shows "(A \<or> (k \<le> x \<and> x < n \<and> R x \<and> E x \<noteq> [] \<and>
            (E x \<in> D \<or> (\<exists>i. k \<le> i \<and> i < x \<and> E i = E x))))
       \<longleftrightarrow> (A \<or> (x = k \<and> R k \<and> E k \<noteq> [] \<and> E k \<in> D) \<or>
            (Suc k \<le> x \<and> x < n \<and> R x \<and> E x \<noteq> [] \<and>
              (E x \<in> insert (E k) D \<or> (\<exists>i. Suc k \<le> i \<and> i < x \<and> E i = E x))))"
proof -
  have ex: "(\<exists>i. k \<le> i \<and> i < x \<and> E i = E x) \<longleftrightarrow>
        (k < x \<and> E k = E x) \<or> (\<exists>i. Suc k \<le> i \<and> i < x \<and> E i = E x)"
    by (metis Suc_leI le_eq_less_or_eq Suc_le_lessD)
  show ?thesis
  proof (cases "x = k")
    case True
    then show ?thesis using assms by auto
  next
    case False
    then have "k \<le> x \<longleftrightarrow> Suc k \<le> x" by auto
    then show ?thesis unfolding ex using False by auto
  qed
qed

lemma uniqueScan_mem:
  "x \<in> set (uniqueScan rows k (drop k sh) seen clr) \<longleftrightarrow>
     x \<in> set clr \<or>
     (k \<le> x \<and> x < length sh \<and> x \<in> set rows \<and> normEmail ((sh ! x) Email) \<noteq> [] \<and>
        (normEmail ((sh ! x) Email) \<in> dom (map_of seen) \<or>
         (\<exists>i. k \<le> i \<and> i < x \<and> normEmail ((sh ! i) Email) = normEmail ((sh ! x) Email))))"
proof (induction "length sh - k" arbitrary: k seen clr)
  case 0
  then show ?case by auto
next
  case (Suc n)
  then have k: "k < length sh" and n: "n = length sh - Suc k" by auto
  have d: "drop k sh = sh ! k # drop (Suc k) sh"
    using k by (simp add: Cons_nth_drop_Suc)
  note IH = Suc.hyps(1) [OF n]
  note step = scan_step [OF k, of _ x "\<lambda>x. x \<in> set rows" "\<lambda>x. normEmail ((sh ! x) Email)"]
  define e where "e = normEmail ((sh ! k) Email)"
  consider (blank) "e = []" | (new) "e \<noteq> []" "map_of seen e = None"
    | (dup_in) "e \<noteq> []" "map_of seen e \<noteq> None" "k \<in> set rows"
    | (dup_out) "e \<noteq> []" "map_of seen e \<noteq> None" "k \<notin> set rows"
    by blast
  then show ?case
  proof cases
    case blank
    have eq: "uniqueScan rows k (drop k sh) seen clr = uniqueScan rows (Suc k) (drop (Suc k) sh) seen clr"
      using blank by (simp add: d e_def)
    show ?thesis
      unfolding eq IH step using blank by (auto simp: e_def)
  next
    case new
    have eq: "uniqueScan rows k (drop k sh) seen clr
        = uniqueScan rows (Suc k) (drop (Suc k) sh) (AList.update e k seen) clr"
      using new by (simp add: d e_def [symmetric] Let_def)
    have dm: "dom (map_of (AList.update e k seen)) = insert e (dom (map_of seen))"
      by (simp add: update_conv')
    have "e \<notin> dom (map_of seen)" using new by auto
    then show ?thesis
      unfolding eq IH step dm by (auto simp: e_def)
  next
    case dup_in
    have eq: "uniqueScan rows k (drop k sh) seen clr
        = uniqueScan rows (Suc k) (drop (Suc k) sh) seen (clr @ [k])"
      using dup_in by (auto simp add: d e_def [symmetric] Let_def)
    have "insert e (dom (map_of seen)) = dom (map_of seen)" using dup_in by auto
    then show ?thesis
      unfolding eq IH step using dup_in by (auto simp: e_def)
  next
    case dup_out
    have eq: "uniqueScan rows k (drop k sh) seen clr
        = uniqueScan rows (Suc k) (drop (Suc k) sh) seen clr"
      using dup_out by (auto simp add: d e_def [symmetric] Let_def)
    have "insert e (dom (map_of seen)) = dom (map_of seen)" using dup_out by auto
    then show ?thesis
      unfolding eq IH step using dup_out by (auto simp: e_def)
  qed
qed

lemma clear_rows:
  "length (foldl (\<lambda>sh r. setRowValuesByHeaders H_ALL r [(Email, [])] sh) sh rs) = length sh \<and>
   (\<forall>i<length sh. foldl (\<lambda>sh r. setRowValuesByHeaders H_ALL r [(Email, [])] sh) sh rs ! i
       = (if i \<in> set rs then (sh ! i)(Email := []) else sh ! i))"
proof (induction rs arbitrary: sh)
  case Nil
  then show ?case by simp
next
  case (Cons r rs)
  have w: "writeCells H_ALL obj [(Email, [])] = obj(Email := [])" for obj
    by (simp add: writeCells_def H_ALL_def)
  show ?case
    using Cons [of "setRowValuesByHeaders H_ALL r [(Email, [])] sh"]
    by (auto simp: setRowValuesByHeaders_def w nth_list_update)
qed

lemma enforceUniqueEmail_nth:
  "length (enforceUniqueEmail rows sh) = length sh \<and>
   (\<forall>x<length sh. enforceUniqueEmail rows sh ! x =
      (if x \<in> set rows \<and> normEmail ((sh ! x) Email) \<noteq> [] \<and>
          (\<exists>i<x. normEmail ((sh ! i) Email) = normEmail ((sh ! x) Email))
       then (sh ! x)(Email := []) else sh ! x))"
proof -
  have m: "x \<in> set (uniqueScan rows 0 sh [] []) \<longleftrightarrow>
      x < length sh \<and> x \<in> set rows \<and> normEmail ((sh ! x) Email) \<noteq> [] \<and>
      (\<exists>i<x. normEmail ((sh ! i) Email) = normEmail ((sh ! x) Email))" for x
    using uniqueScan_mem [of x rows 0 sh "[]" "[]"] by simp
  have e: "enforceUniqueEmail rows sh =
      foldl (\<lambda>sh r. setRowValuesByHeaders H_ALL r [(Email, [])] sh) sh
        (sort (uniqueScan rows 0 sh [] []))"
    by (simp add: enforceUniqueEmail_def H_ALL_def)
  show ?thesis
    unfolding e using clear_rows [of sh "sort (uniqueScan rows 0 sh [] [])"] m
    by simp
qed

lemma distinct_filter_nth:
  "(\<And>i j. i < j \<Longrightarrow> j < length xs \<Longrightarrow> P (xs ! i) \<Longrightarrow> P (xs ! j) \<Longrightarrow> xs ! i \<noteq> xs ! j) \<Longrightarrow>
   distinct (filter P xs)"
proof (induction xs)
  case Nil
  then show ?case by simp
next
  case (Cons x xs)
  have tl: "distinct (filter P xs)"
  proof (rule Cons.IH)
    fix i j assume "i < j" "j < length xs" "P (xs ! i)" "P (xs ! j)"
    then show "xs ! i \<noteq> xs ! j"
      using Cons.prems [of "Suc i" "Suc j"] by simp
  qed
  have hd: "x \<notin> set xs" if "P x"
  proof
    assume "x \<in> set xs"
    then obtain j where j: "j < length xs" "xs ! j = x" by (auto simp: in_set_conv_nth)
    then show False using Cons.prems [of 0 "Suc j"] that by simp
  qed
  show ?case using tl hd by auto
qed

text \<open>
  C5 (as amended). \<open>enforceUniqueEmail_\<close> keeps the number of rows and never modifies a
  row outside the edited set; it blanks the email of every edited row whose normalized
  email already occurs on an earlier row; and when every row that repeats the email of an
  earlier row is in the edited set, every non-empty normalized email is on one row only
  afterwards.
\<close>

theorem enforceUniqueEmail_edited:
  "length (enforceUniqueEmail rows sh) = length sh \<and>
   (\<forall>i<length sh. i \<notin> set rows \<longrightarrow> enforceUniqueEmail rows sh ! i = sh ! i) \<and>
   (\<forall>i<length sh. i \<in> set rows \<and> normEmail ((sh ! i) Email) \<noteq> [] \<and>
        (\<exists>j<i. normEmail ((sh ! j) Email) = normEmail ((sh ! i) Email))
      \<longrightarrow> (enforceUniqueEmail rows sh ! i) Email = []) \<and>
   ((\<forall>i<length sh. \<forall>j<i.
        normEmail ((sh ! i) Email) \<noteq> [] \<and> normEmail ((sh ! j) Email) = normEmail ((sh ! i) Email)
        \<longrightarrow> i \<in> set rows)
      \<longrightarrow> emails_unique (enforceUniqueEmail rows sh))"
proof -
  note n = enforceUniqueEmail_nth [of rows sh]
  have u: "emails_unique (enforceUniqueEmail rows sh)"
    if h: "\<forall>i<length sh. \<forall>j<i.
        normEmail ((sh ! i) Email) \<noteq> [] \<and> normEmail ((sh ! j) Email) = normEmail ((sh ! i) Email)
        \<longrightarrow> i \<in> set rows"
    unfolding emails_unique_def
  proof (rule distinct_filter_nth)
    fix i j
    let ?xs = "map (\<lambda>d. normEmail (d Email)) (enforceUniqueEmail rows sh)"
    assume ij: "i < j" and j: "j < length ?xs" and pi: "?xs ! i \<noteq> []" and pj: "?xs ! j \<noteq> []"
    have jl: "j < length sh" and il: "i < length sh" using j ij n by auto
    have ej: "?xs ! j = normEmail ((sh ! j) Email)"
      "\<not> (\<exists>k<j. normEmail ((sh ! k) Email) = normEmail ((sh ! j) Email))"
      using pj jl n h by (auto split: if_splits)
    have ei: "?xs ! i = normEmail ((sh ! i) Email)"
      using pi il n by (auto split: if_splits)
    show "?xs ! i \<noteq> ?xs ! j"
      using ej ei ij by auto
  qed
  show ?thesis using n u by auto
qed

theorem enforceUniqueEmail_edited_witness:
  "enforceUniqueEmail [1] [blank_row(Email := ''a@x.com''), blank_row(Email := ''A@x.com '')]
     ! 1 = (blank_row(Email := ''A@x.com ''))(Email := []) \<and>
   emails_unique (enforceUniqueEmail [1]
     [blank_row(Email := ''a@x.com''), blank_row(Email := ''A@x.com '')])"
proof -
  have e: "normEmail ''a@x.com'' = ''a@x.com''" "normEmail ''A@x.com '' = ''a@x.com''"
    by code_simp+
  show ?thesis
    using enforceUniqueEmail_edited [of "[1]"
        "[blank_row(Email := ''a@x.com''), blank_row(Email := ''A@x.com '')]"] enforceUniqueEmail_nth [of "[1]"
        "[blank_row(Email := ''a@x.com''), blank_row(Email := ''A@x.com '')]"]
    by (simp add: e less_Suc_eq_0_disj)
qed

text \<open>
  C5 (as stated) fails: two rows that share an email and are not in the edited set keep
  it, so the email is still on two rows after the run.
\<close>

theorem enforceUniqueEmail_not_global:
  "\<not> emails_unique (enforceUniqueEmail [2]
        [blank_row(Email := ''a@x.com''), blank_row(Email := ''a@x.com''),
         blank_row(Email := ''b@x.com'')])"
  by code_simp

lemma reqIndexLoop_sound:
  "map_of (reqIndexLoop k rng idx) j = Some r \<Longrightarrow>
   map_of idx j = Some r \<or> (k \<le> r \<and> r < k + length rng \<and> trim ((rng ! (r - k)) JobID) = j \<and> j \<noteq> [])"
proof (induction rng arbitrary: k idx)
  case Nil
  then show ?case by simp
next
  case (Cons obj rng)
  from Cons.prems have
    "map_of (reqIndexLoop (Suc k) rng
       (if trim (obj JobID) \<noteq> [] then AList.update (trim (obj JobID)) k idx else idx)) j = Some r"
    by (simp add: Let_def)
  from Cons.IH [OF this] show ?case
    by (auto simp: update_conv' nth_Cons' Suc_diff_le split: if_splits)
qed

lemma buildReqIndex_sound:
  "map_of (buildReqIndex sh) j = Some r \<Longrightarrow> r < length sh \<and> trim ((sh ! r) JobID) = j \<and> j \<noteq> []"
  using reqIndexLoop_sound [of 0 sh "[]" j r] by (simp add: buildReqIndex_def)

lemma candIndexLoop_rows:
  "snd (candIndexLoop now k rng index rows) =
     rows @ filter (\<lambda>(r, obj). trim (obj JobID) \<noteq> [] \<or> normEmail (obj Email) \<noteq> [])
              (List.enumerate k rng)"
  by (induction rng arbitrary: k index rows) (simp_all add: Let_def)

lemma foldl_row_writes:
  assumes "distinct (map fst ps)"
    and "\<forall>(r, data) \<in> set ps. r < length sh0 \<and> data = sh0 ! r \<and> sh ! r = sh0 ! r"
    and "length sh = length sh0"
  shows "length (foldl (\<lambda>sh (r, data). if U data \<noteq> [] then setRowValuesByHeaders hm r (U data) sh else sh) sh ps)
           = length sh0 \<and>
         (\<forall>i<length sh0.
            foldl (\<lambda>sh (r, data). if U data \<noteq> [] then setRowValuesByHeaders hm r (U data) sh else sh) sh ps ! i
            = (if i \<in> fst ` set ps then writeCells hm (sh0 ! i) (U (sh0 ! i)) else sh ! i))"
  using assms
proof (induction ps arbitrary: sh)
  case Nil
  then show ?case by simp
next
  case (Cons p ps)
  obtain r data where p: "p = (r, data)" by (cases p)
  let ?sh1 = "if U data \<noteq> [] then setRowValuesByHeaders hm r (U data) sh else sh"
  have r: "r < length sh0" "data = sh0 ! r" "sh ! r = sh0 ! r" "r \<notin> fst ` set ps"
    using Cons.prems p by auto
  have w0: "writeCells hm obj [] = obj" for obj by (simp add: writeCells_def)
  have sh1: "?sh1 = sh[r := writeCells hm (sh0 ! r) (U (sh0 ! r))]"
    using r Cons.prems(3) by (auto simp: setRowValuesByHeaders_def w0) (metis list_update_id)
  have "length (foldl (\<lambda>sh (r, data). if U data \<noteq> [] then setRowValuesByHeaders hm r (U data) sh else sh) ?sh1 ps)
           = length sh0 \<and>
         (\<forall>i<length sh0.
            foldl (\<lambda>sh (r, data). if U data \<noteq> [] then setRowValuesByHeaders hm r (U data) sh else sh) ?sh1 ps ! i
            = (if i \<in> fst ` set ps then writeCells hm (sh0 ! i) (U (sh0 ! i)) else ?sh1 ! i))"
  proof (rule Cons.IH)
    show "distinct (map fst ps)" using Cons.prems(1) by simp
    show "length ?sh1 = length sh0" using Cons.prems(3) by (simp add: sh1)
    show "\<forall>(r, data)\<in>set ps. r < length sh0 \<and> data = sh0 ! r \<and> ?sh1 ! r = sh0 ! r"
      unfolding sh1
    proof (clarify)
      fix a b assume ab: "(a, b) \<in> set ps"
      have ne: "a \<noteq> r" using r(4) ab by force
      from Cons.prems(2) ab have "a < length sh0 \<and> b = sh0 ! a \<and> sh ! a = sh0 ! a" by auto
      then show "a < length sh0 \<and> b = sh0 ! a \<and>
          sh[r := writeCells hm (sh0 ! r) (U (sh0 ! r))] ! a = sh0 ! a"
        using ne by simp
    qed
  qed
  moreover have "foldl (\<lambda>sh (r, data). if U data \<noteq> [] then setRowValuesByHeaders hm r (U data) sh else sh) sh (p # ps)
      = foldl (\<lambda>sh (r, data). if U data \<noteq> [] then setRowValuesByHeaders hm r (U data) sh else sh) ?sh1 ps"
    by (simp add: p)
  ultimately show ?case
    unfolding sh1 using r Cons.prems(3) by (auto simp: p nth_list_update)
qed

lemma writeCells_Nil [simp]: "writeCells hm obj [] = obj"
  by (simp add: writeCells_def)

lemma writeCells_Cons:
  "writeCells hm obj ((h, v) # us) = writeCells hm (if h \<in> set hm then obj(h := v) else obj) us"
  by (simp add: writeCells_def)

lemma hired_req_row:
  assumes "canonReqStatus (reqObj JobStatus) = ''Hired'' \<longrightarrow> normStr (reqObj JobStatus) = ''Hired''"
    and "hiredFullName \<noteq> []"
    and "updates = hiredReqUpdates hiredFullName reqObj"
    and "obj1 = writeCells H_REQ reqObj updates"
    and "obj2 = (if updates \<noteq> [] then writeCells H_REQ obj1 (reqStatusUpdates H_REQ now obj1) else reqObj)"
  shows "normStr (obj2 JobStatus) = ''Hired'' \<and>
         normStr (obj2 HiredCandidateName) = normStr hiredFullName \<and>
         (normStr (reqObj HiredCandidateName) \<noteq> normStr hiredFullName \<longrightarrow>
            obj2 HiredCandidateName = hiredFullName) \<and>
         (canonReqStatus (reqObj JobStatus) \<noteq> ''Hired'' \<longrightarrow> obj2 JobStatus = ''Hired'') \<and>
         obj2 JobID = reqObj JobID"
proof -
  have s1: "normStr (obj1 JobStatus) = ''Hired''"
    using assms(1) unfolding assms(3,4)
    by (auto simp: hiredReqUpdates_def writeCells_Cons H_REQ_def normStr_def)
  have n1: "normStr (obj1 HiredCandidateName) = normStr hiredFullName"
    "normStr (reqObj HiredCandidateName) \<noteq> normStr hiredFullName \<longrightarrow>
       obj1 HiredCandidateName = hiredFullName"
    "canonReqStatus (reqObj JobStatus) \<noteq> ''Hired'' \<longrightarrow> obj1 JobStatus = ''Hired''"
    "obj1 JobID = reqObj JobID"
    "updates = [] \<longrightarrow> obj1 = reqObj"
    using assms(2) unfolding assms(3,4)
    by (auto simp: hiredReqUpdates_def writeCells_Cons H_REQ_def truthy_def)
  have keep: "writeCells H_REQ obj1 (reqStatusUpdates H_REQ now obj1) h = obj1 h"
    if "h \<in> {JobStatus, HiredCandidateName, JobID}" for h
    using s1 that
    by (auto simp: reqStatusUpdates_def Let_def writeCells_Cons H_REQ_def)
  show ?thesis
    using s1 n1 keep unfolding assms(5) by auto
qed

lemma hired_all_rows:
  assumes "jobId \<noteq> []"
  shows "length (foldl (\<lambda>sh (r, data).
                      let updates = hiredRejectUpdates now jobId hiredEmail data in
                      if updates \<noteq> [] then setRowValuesByHeaders H_ALL r updates sh else sh)
                    sh (snd (buildCandidateIndex now sh))) = length sh \<and>
         (\<forall>i<length sh.
            foldl (\<lambda>sh (r, data).
                      let updates = hiredRejectUpdates now jobId hiredEmail data in
                      if updates \<noteq> [] then setRowValuesByHeaders H_ALL r updates sh else sh)
                    sh (snd (buildCandidateIndex now sh)) ! i
            = writeCells H_ALL (sh ! i) (hiredRejectUpdates now jobId hiredEmail (sh ! i)))"
proof -
  define U where "U = hiredRejectUpdates now jobId hiredEmail"
  define all1 where "all1 = foldl (\<lambda>sh (r, data).
                      let updates = hiredRejectUpdates now jobId hiredEmail data in
                      if updates \<noteq> [] then setRowValuesByHeaders H_ALL r updates sh else sh)
                    sh (snd (buildCandidateIndex now sh))"
  let ?ps = "filter (\<lambda>(r, obj). trim (obj JobID) \<noteq> [] \<or> normEmail (obj Email) \<noteq> [])
              (List.enumerate 0 sh)"
  have rows: "snd (buildCandidateIndex now sh) = ?ps"
    by (simp add: buildCandidateIndex_def candIndexLoop_rows)
  have d: "distinct (map fst ?ps)"
    by (rule distinct_map_filter) simp
  have m: "\<forall>(r, data) \<in> set ?ps. r < length sh \<and> data = sh ! r \<and> sh ! r = sh ! r"
    by (auto simp: in_set_enumerate_eq)
  have f: "all1 = foldl (\<lambda>sh (r, data). if U data \<noteq> [] then setRowValuesByHeaders H_ALL r (U data) sh else sh) sh ?ps"
    unfolding all1_def rows U_def Let_def ..
  note w = foldl_row_writes [OF d m refl, of U H_ALL]
  have un: "U (sh ! i) = []" if "i < length sh" "i \<notin> fst ` set ?ps" for i
  proof -
    have "(i, sh ! i) \<in> set (List.enumerate 0 sh)" using that(1) by (simp add: in_set_enumerate_eq)
    then have "trim ((sh ! i) JobID) = []" using that(2) by force
    then show ?thesis using assms(1) by (auto simp: U_def hiredRejectUpdates_def normStr_def)
  qed
  have "length all1 = length sh \<and> (\<forall>i<length sh. all1 ! i = writeCells H_ALL (sh ! i) (U (sh ! i)))"
    unfolding f using w un by auto
  then show ?thesis
    unfolding all1_def U_def .
qed

text \<open>
  The hired flow when the status cell of the requisition is not a differently spelled
  "Hired": it runs (guard clear) for a job whose requisition row \<open>r\<close> is found by the
  index. Afterwards the requisition has status Hired and carries the hired candidate's
  name; every candidate row of the job with another email whose stage is neither Hired nor
  Rejected has stage Rejected, the reason "Hired a Different Candidate" and a stamped Last
  Updated; and every row with the hired candidate's email is unchanged.
\<close>

theorem hired_flow:
  assumes "\<not> processingHiredFlow st"
    and "map_of (buildReqIndex (req st)) jobId = Some r"
    and "canonReqStatus ((req st ! r) JobStatus) = ''Hired'' \<longrightarrow>
         normStr ((req st ! r) JobStatus) = ''Hired''"
    and "hiredFullName \<noteq> []"
    and "st' = applyHiredFlow now jobId hiredFullName hiredEmail st"
  shows "normStr ((req st' ! r) JobID) = jobId \<and>
         normStr ((req st' ! r) JobStatus) = ''Hired'' \<and>
         (canonReqStatus ((req st ! r) JobStatus) \<noteq> ''Hired'' \<longrightarrow> (req st' ! r) JobStatus = ''Hired'') \<and>
         normStr ((req st' ! r) HiredCandidateName) = normStr hiredFullName \<and>
         (normStr ((req st ! r) HiredCandidateName) \<noteq> normStr hiredFullName \<longrightarrow>
            (req st' ! r) HiredCandidateName = hiredFullName) \<and>
         length (allc st') = length (allc st) \<and>
         (\<forall>i<length (allc st).
            (normStr ((allc st ! i) JobID) = jobId \<and> normEmail ((allc st ! i) Email) \<noteq> hiredEmail \<and>
             normStr ((allc st ! i) Stage) \<noteq> ''Hired'' \<and> normStr ((allc st ! i) Stage) \<noteq> ''Rejected''
             \<longrightarrow> (allc st' ! i) Stage = ''Rejected'' \<and>
                 (allc st' ! i) RejectedReason = ''Hired a Different Candidate'' \<and>
                 (allc st' ! i) Updated = of_date now) \<and>
            (normEmail ((allc st ! i) Email) = hiredEmail \<longrightarrow> allc st' ! i = allc st ! i)) \<and>
         \<not> processingHiredFlow st'"
proof -
  from buildReqIndex_sound [OF assms(2)]
  have r: "r < length (req st)" and jid: "trim ((req st ! r) JobID) = jobId" and ne: "jobId \<noteq> []"
    by auto
  define reqObj where "reqObj = req st ! r"
  define updates where "updates = hiredReqUpdates hiredFullName reqObj"
  define obj1 where "obj1 = writeCells H_REQ reqObj updates"
  define obj2 where "obj2 = (if updates \<noteq> [] then writeCells H_REQ obj1 (reqStatusUpdates H_REQ now obj1) else reqObj)"
  note row = hired_req_row [OF assms(3) [folded reqObj_def] assms(4) updates_def obj1_def obj2_def]
  have req': "req st' ! r = obj2"
    unfolding assms(5) applyHiredFlow_def
    using assms(1,2) r
    by (simp add: Let_def getRowObjectByHeaders_def reqObj_def [symmetric] updates_def [symmetric]
        setRowValuesByHeaders_def req_step obj1_def [symmetric] obj2_def)
  note rows = hired_all_rows [OF ne, of now hiredEmail "allc st"]
  have all': "allc st' = foldl (\<lambda>sh (r, data).
                      let updates = hiredRejectUpdates now jobId hiredEmail data in
                      if updates \<noteq> [] then setRowValuesByHeaders H_ALL r updates sh else sh)
                    (allc st) (snd (buildCandidateIndex now (allc st)))"
    unfolding assms(5) applyHiredFlow_def using assms(1) by (simp add: Let_def)
  have flag: "\<not> processingHiredFlow st'"
    unfolding assms(5) applyHiredFlow_def using assms(1) by (simp add: Let_def)
  have cells: "(normStr (c JobID) = jobId \<and> normEmail (c Email) \<noteq> hiredEmail \<and>
             normStr (c Stage) \<noteq> ''Hired'' \<and> normStr (c Stage) \<noteq> ''Rejected''
             \<longrightarrow> (writeCells H_ALL c (hiredRejectUpdates now jobId hiredEmail c)) Stage = ''Rejected'' \<and>
                 (writeCells H_ALL c (hiredRejectUpdates now jobId hiredEmail c)) RejectedReason
                    = ''Hired a Different Candidate'' \<and>
                 (writeCells H_ALL c (hiredRejectUpdates now jobId hiredEmail c)) Updated = of_date now) \<and>
            (normEmail (c Email) = hiredEmail \<longrightarrow>
               writeCells H_ALL c (hiredRejectUpdates now jobId hiredEmail c) = c)" for c
    by (simp add: hiredRejectUpdates_def Let_def writeCells_Cons H_ALL_def)
  show ?thesis
    using row rows cells flag jid unfolding req' all' [symmetric] reqObj_def
    by (simp add: normStr_def)
qed

theorem hired_flow_witness:
  "map_of (buildReqIndex [blank_row(JobID := ''2025-0001'', JobStatus := ''Open'')]) ''2025-0001'' = Some 0 \<and>
   (let st = \<lparr>req = [blank_row(JobID := ''2025-0001'', JobStatus := ''Open'')],
               allc = [blank_row(FullName := ''Ann Lee'', Email := ''a@x.com'',
                          JobID := ''2025-0001'', Stage := ''Hired''),
                       blank_row(FullName := ''Bo Ray'', Email := ''b@x.com'',
                          JobID := ''2025-0001'', Stage := ''Interviewing'')],
               act = [], recentEdits = [], processingHiredFlow = False\<rparr>;
        st' = applyHiredFlow 1000 ''2025-0001'' ''Ann Lee'' ''a@x.com'' st
    in (req st' ! 0) JobStatus = ''Hired'' \<and> (req st' ! 0) HiredCandidateName = ''Ann Lee'' \<and>
       (allc st' ! 1) Stage = ''Rejected'' \<and>
       (allc st' ! 1) RejectedReason = ''Hired a Different Candidate'' \<and>
       (allc st' ! 1) Updated = ''1000'' \<and>
       allc st' ! 0 = allc st ! 0)"
proof -
  have i: "map_of (buildReqIndex [blank_row(JobID := ''2025-0001'', JobStatus := ''Open'')]) ''2025-0001'' = Some 0"
    by code_simp
  have c: "canonReqStatus ''Open'' = ''Open''"
    by code_simp
  have e: "normEmail ''a@x.com'' = ''a@x.com''" "normEmail ''b@x.com'' = ''b@x.com''"
    "trim ''2025-0001'' = ''2025-0001''" "trim ''Interviewing'' = ''Interviewing''"
    "trim ''Ann Lee'' = ''Ann Lee''" "of_date 1000 = ''1000''"
    by code_simp+
  show ?thesis
    using i hired_flow [where st = "\<lparr>req = [blank_row(JobID := ''2025-0001'', JobStatus := ''Open'')],
               allc = [blank_row(FullName := ''Ann Lee'', Email := ''a@x.com'',
                          JobID := ''2025-0001'', Stage := ''Hired''),
                       blank_row(FullName := ''Bo Ray'', Email := ''b@x.com'',
                          JobID := ''2025-0001'', Stage := ''Interviewing'')],
               act = [], recentEdits = [], processingHiredFlow = False\<rparr>"
        and jobId = "''2025-0001''" and r = 0 and hiredFullName = "''Ann Lee''" and now = 1000
        and hiredEmail = "''a@x.com''", OF _ _ _ _ refl]
    by (simp add: c e Let_def normStr_def blank_row_def less_Suc_eq_0_disj)
qed

text \<open>
  C4 fails on the code when the status cell of the requisition holds \<open>hired\<close>. The flow
  compares the canonical status with \<open>Hired\<close> and so writes no status, it writes the hired
  candidate's name, and the transition engine, which compares the trimmed cell itself with
  \<open>Hired\<close>, clears the name again: the requisition ends with the status \<open>hired\<close> and no
  hired candidate name, while the other candidate is rejected all the same.
\<close>

theorem hired_flow_lowercase_status:
  "(req (applyHiredFlow 1000 ''2025-0001'' ''Ann Lee'' ''a@x.com'' ex_hired_lowercase) ! 0) JobStatus
     = ''hired'' \<and>
   (req (applyHiredFlow 1000 ''2025-0001'' ''Ann Lee'' ''a@x.com'' ex_hired_lowercase) ! 0)
     HiredCandidateName = [] \<and>
   (allc (applyHiredFlow 1000 ''2025-0001'' ''Ann Lee'' ''a@x.com'' ex_hired_lowercase) ! 1) Stage
     = ''Rejected''"
  by code_simp

lemma trim_eq_Nil_iff: "trim x = [] \<longleftrightarrow> (\<forall>c \<in> set x. is_space c)"
proof -
  have "set x = set (takeWhile is_space x) \<union> set (dropWhile is_space x)"
    by (metis set_append takeWhile_dropWhile_id)
  moreover have "\<forall>c \<in> set (takeWhile is_space x). is_space c"
    by (auto dest: set_takeWhileD)
  ultimately have "(\<forall>c \<in> set (dropWhile is_space x). is_space c) \<longleftrightarrow> (\<forall>c \<in> set x. is_space c)"
    by auto
  then show ?thesis
    by (simp add: trim_def dropWhile_eq_Nil_conv)
qed

lemma trim_not_Nil_ends:
  assumes "trim x \<noteq> []"
  shows "\<not> is_space (hd (trim x))" "\<not> is_space (last (trim x))"
proof -
  let ?y = "dropWhile is_space x"
  have y: "?y \<noteq> []" using assms trim_eq_Nil_iff [of x] by (auto simp: dropWhile_eq_Nil_conv)
  have hy: "\<not> is_space (hd ?y)" using y by (rule hd_dropWhile)
  let ?z = "dropWhile is_space (rev ?y)"
  have z: "?z \<noteq> []" using assms by (simp add: trim_def)
  have hz: "\<not> is_space (hd ?z)" using z by (rule hd_dropWhile)
  show "\<not> is_space (last (trim x))"
    using hz z by (simp add: trim_def last_rev)
  have "rev ?y = takeWhile is_space (rev ?y) @ ?z" by simp
  then have "?y = rev ?z @ rev (takeWhile is_space (rev ?y))"
    by (metis rev_append rev_rev_ident)
  then have "hd ?y = hd (rev ?z)" using z by (metis hd_append2 rev_is_Nil_conv)
  then show "\<not> is_space (hd (trim x))" using hy by (simp add: trim_def)
qed

lemma trim_fixed:
  "x = [] \<or> (\<not> is_space (hd x) \<and> \<not> is_space (last x)) \<Longrightarrow> trim x = x"
proof (cases x)
  case Nil
  then show ?thesis by simp
next
  case (Cons a y)
  assume "x = [] \<or> (\<not> is_space (hd x) \<and> \<not> is_space (last x))"
  then have h: "\<not> is_space (hd x)" and l: "\<not> is_space (last x)" using Cons by auto
  have 1: "dropWhile is_space x = x" using h Cons by simp
  have "rev x \<noteq> []" "hd (rev x) = last x" using Cons by (simp_all add: hd_rev)
  then obtain z zs where z: "rev x = z # zs" "z = last x" by (cases "rev x") auto
  have 2: "dropWhile is_space (rev x) = rev x" unfolding z(1) using l z(2) by simp
  show ?thesis by (simp add: trim_def 1 2)
qed

lemma trim_idem [simp]: "trim (trim x) = trim x"
  by (rule trim_fixed) (use trim_not_Nil_ends in blast)

lemma set_trim_subset: "set (trim x) \<subseteq> set x"
  by (auto simp: trim_def dest!: set_dropWhileD)

lemma toLowerCase_Nil_iff [simp]: "toLowerCase x = [] \<longleftrightarrow> x = []"
  by (simp add: toLowerCase_def)

lemma trim_toLowerCase: "trim (toLowerCase x) = toLowerCase (trim x)"
proof -
  have "dropWhile is_space (map lower_char y) = map lower_char (dropWhile is_space y)" for y
    by (induction y) auto
  then show ?thesis
    by (simp add: trim_def toLowerCase_def rev_map)
qed

lemma normEmail_Nil_iff: "normEmail y = [] \<longleftrightarrow> trim y = []"
  by (auto simp: normEmail_def Let_def split: list.splits)

lemma normEmail_disj:
  "normEmail x = toLowerCase (trim x) \<or>
   (\<exists>l d. split_on CHR ''@'' (toLowerCase (trim x)) = [l, d] \<and>
      normEmail x = takeWhile (\<lambda>c. c \<noteq> CHR ''+'') (filter (\<lambda>c. c \<noteq> CHR ''.'') l) @ ''@gmail.com'')"
  by (auto simp: normEmail_def Let_def first_part_takeWhile split: list.splits)

lemma normEmail_cases:
  obtains (plain) "normEmail x = toLowerCase (trim x)"
  | (gmail) l d where "split_on CHR ''@'' (toLowerCase (trim x)) = [l, d]"
      "normEmail x = takeWhile (\<lambda>c. c \<noteq> CHR ''+'') (filter (\<lambda>c. c \<noteq> CHR ''.'') l) @ ''@gmail.com''"
  using normEmail_disj [of x] by blast

lemma not_space_at [simp]: "\<not> is_space CHR ''@''" "\<not> is_space CHR ''m''"
  by (simp_all add: is_space_def)

lemma trim_normEmail_Nil_iff: "trim (normEmail x) = [] \<longleftrightarrow> normEmail x = []"
proof (cases x rule: normEmail_cases)
  case plain
  then show ?thesis by (simp add: trim_toLowerCase [symmetric])
next
  case (gmail l d)
  have "CHR ''@'' \<in> set (normEmail x)" by (simp add: gmail(2))
  then have "trim (normEmail x) \<noteq> []"
    unfolding trim_eq_Nil_iff using not_space_at(1) by blast
  then show ?thesis by (auto simp: gmail(2))
qed

lemma normEmail_twice_Nil_iff: "normEmail (normEmail x) = [] \<longleftrightarrow> normEmail x = []"
  by (simp add: normEmail_Nil_iff [of "normEmail x"] trim_normEmail_Nil_iff)

lemma normEmail_pre: "normEmail (toLowerCase (trim x)) = normEmail x"
  by (simp add: normEmail_def trim_toLowerCase toLowerCase_idem)

lemma trim_append_gmail:
  "trim (c @ ''@gmail.com'') = dropWhile is_space c @ ''@gmail.com''"
proof -
  have 1: "dropWhile is_space (c @ ''@gmail.com'') = dropWhile is_space c @ ''@gmail.com''"
    by (simp add: dropWhile_append is_space_def dropWhile_eq_Nil_conv)
  show ?thesis
    unfolding trim_def 1 by (simp add: is_space_def)
qed

lemma normEmail_gmail_form:
  assumes "\<forall>ch \<in> set c. lower_char ch = ch"
    and "CHR ''@'' \<notin> set c" "CHR ''.'' \<notin> set c" "CHR ''+'' \<notin> set c"
  shows "normEmail (c @ ''@gmail.com'') = dropWhile is_space c @ ''@gmail.com''"
proof -
  let ?c = "dropWhile is_space c"
  have sub: "set ?c \<subseteq> set c" by (auto dest: set_dropWhileD)
  have low: "toLowerCase (?c @ ''@gmail.com'') = ?c @ ''@gmail.com''"
  proof (rule toLowerCase_fixed)
    have "\<forall>ch \<in> set ''@gmail.com''. lower_char ch = ch"
      by (simp add: lower_char_def)
    then show "\<forall>ch \<in> set (?c @ ''@gmail.com''). lower_char ch = ch"
      using assms(1) sub by auto
  qed
  have sp: "split_on CHR ''@'' (?c @ ''@gmail.com'') = [?c, ''gmail.com'']"
    using split_on_append [of "CHR ''@''" ?c "''gmail.com''"] assms(2) sub by auto
  have f: "filter (\<lambda>ch. ch \<noteq> CHR ''.'') ?c = ?c"
    using assms(3) sub by (auto simp: filter_id_conv)
  have t: "takeWhile (\<lambda>ch. ch \<noteq> CHR ''+'') ?c = ?c"
    using assms(4) sub by (auto simp: takeWhile_eq_all_conv)
  show ?thesis
    by (simp add: normEmail_def trim_append_gmail low sp f t first_part_takeWhile Let_def
        del: split_on.simps)
qed

lemma normEmail_stable: "normEmail (normEmail (normEmail x)) = normEmail (normEmail x)"
proof (cases x rule: normEmail_cases)
  case plain
  then have "normEmail (normEmail x) = normEmail x" by (simp add: normEmail_pre)
  then show ?thesis by simp
next
  case (gmail l d)
  define c where "c = takeWhile (\<lambda>c. c \<noteq> CHR ''+'') (filter (\<lambda>c. c \<noteq> CHR ''.'') l)"
  have l: "set l \<subseteq> set (toLowerCase (trim x))" "CHR ''@'' \<notin> set l"
    using split_on_two [OF gmail(1)] by auto
  have sub: "set c \<subseteq> set l" "CHR ''.'' \<notin> set c"
    unfolding c_def by (auto dest: set_takeWhileD)
  have plus: "CHR ''+'' \<notin> set c"
    unfolding c_def by (auto dest: set_takeWhileD)
  have low: "\<forall>ch \<in> set c. lower_char ch = ch"
    using sub(1) l(1) toLowerCase_chars by blast
  have at: "CHR ''@'' \<notin> set c" using sub(1) l(2) by auto
  let ?c = "dropWhile is_space c"
  have sub': "set ?c \<subseteq> set c" by (auto dest: set_dropWhileD)
  have 1: "normEmail (normEmail x) = ?c @ ''@gmail.com''"
    unfolding gmail(2) c_def [symmetric] by (rule normEmail_gmail_form [OF low at sub(2) plus])
  have 2: "normEmail (?c @ ''@gmail.com'') = dropWhile is_space ?c @ ''@gmail.com''"
    by (rule normEmail_gmail_form) (use low at sub(2) plus sub' in auto)
  show ?thesis
    unfolding 1 2 by (simp add: dropWhile_idem)
qed

lemma upper_char_other:
  "c \<notin> set ''abcdefghijklmnopqrstuvwxyz'' \<Longrightarrow> upper_char c = c"
proof -
  assume a: "c \<notin> set ''abcdefghijklmnopqrstuvwxyz''"
  have "map fst (zip ''abcdefghijklmnopqrstuvwxyz'' ''ABCDEFGHIJKLMNOPQRSTUVWXYZ'')
        = ''abcdefghijklmnopqrstuvwxyz''"
    by (rule map_fst_zip) simp
  then have "c \<notin> fst ` set (zip ''abcdefghijklmnopqrstuvwxyz'' ''ABCDEFGHIJKLMNOPQRSTUVWXYZ'')"
    using a by (metis set_map)
  then have "map_of (zip ''abcdefghijklmnopqrstuvwxyz'' ''ABCDEFGHIJKLMNOPQRSTUVWXYZ'') c = None"
    by (meson map_of_eq_None_iff)
  then show ?thesis
    unfolding upper_char_def by simp
qed

lemma upper_char_lower:
  "c \<in> set ''abcdefghijklmnopqrstuvwxyz'' \<Longrightarrow>
     lower_char (upper_char c) = c \<and> \<not> is_space (upper_char c) \<and> \<not> is_space c"
  apply (simp only: set_simps insert_iff empty_iff)
  apply (elim disjE FalseE)
  apply (simp_all add: lower_char_def upper_char_def is_space_def)
  done

lemma lower_upper_fixed: "lower_char c = c \<Longrightarrow> lower_char (upper_char c) = c"
  by (cases "c \<in> set ''abcdefghijklmnopqrstuvwxyz''")
     (use upper_char_lower upper_char_other in metis)+

lemma upper_char_space [simp]: "is_space (upper_char c) = is_space c"
  by (cases "c \<in> set ''abcdefghijklmnopqrstuvwxyz''")
     (use upper_char_lower upper_char_other in metis)+

lemma canon_words:
  "canonReqStatus ''Open'' = ''Open''" "canonReqStatus ''On Hold'' = ''On Hold''"
  "canonReqStatus ''Closed'' = ''Closed''" "canonReqStatus ''Pending Approval'' = ''Pending Approval''"
  "canonReqStatus ''Hired'' = ''Hired''" "canonReqStatus [] = []"
  by (simp_all add: canonReqStatus_def normStr_def trim_def is_space_def toLowerCase_def
      lower_char_def)

lemma canonReqStatus_idem: "canonReqStatus (canonReqStatus s) = canonReqStatus s"
proof -
  define t where "t = toLowerCase (normStr s)"
  define W where "W = {''open'', ''on hold'', ''closed'', ''pending approval'', ''hired''}"
  have "t = [] \<or> t \<in> W \<or> (\<exists>c cs. t = c # cs \<and> t \<notin> W)"
    by (cases t) blast+
  then consider (blank) "t = []" | (word) "t \<in> W" | (other) c cs where "t = c # cs" "t \<notin> W"
    by blast
  then show ?thesis
  proof cases
    case blank
    then have "canonReqStatus s = []"
      unfolding canonReqStatus_def [of s] t_def [symmetric] Let_def by simp
    then show ?thesis by (simp only: canon_words)
  next
    case word
    then have "t = ''open'' \<or> t = ''on hold'' \<or> t = ''closed'' \<or> t = ''pending approval'' \<or> t = ''hired''"
      by (simp only: W_def insert_iff empty_iff) simp
    then have "canonReqStatus s \<in> {''Open'', ''On Hold'', ''Closed'', ''Pending Approval'', ''Hired''}"
      unfolding canonReqStatus_def [of s] t_def [symmetric] Let_def
      by (elim disjE) simp_all
    then show ?thesis
      by (simp only: insert_iff empty_iff) (elim disjE FalseE; simp only: canon_words)
  next
    case (other c cs)
    have nw: "t \<noteq> ''open''" "t \<noteq> ''on hold''" "t \<noteq> ''closed''" "t \<noteq> ''pending approval''"
      "t \<noteq> ''hired''" "t \<noteq> []"
      using other unfolding W_def by (simp_all only: insert_iff empty_iff de_Morgan_disj not_False_eq_True simp_thms) simp_all
    have cs: "canonReqStatus s = upper_char c # cs"
      unfolding canonReqStatus_def t_def [symmetric] Let_def
      using nw other(1) by (simp only: if_False list.case)
    have tne: "trim s \<noteq> []" using other(1) by (auto simp: t_def normStr_def toLowerCase_def)
    have tt: "t = toLowerCase (trim s)" by (simp add: t_def normStr_def)
    have hd_t: "\<not> is_space (hd t)" "\<not> is_space (last t)"
      using trim_not_Nil_ends [OF tne] tne
      by (simp_all add: tt toLowerCase_def hd_map last_map)
    have fx: "\<forall>ch \<in> set t. lower_char ch = ch"
      using toLowerCase_chars by (auto simp: tt)
    let ?u = "upper_char c # cs"
    have "\<not> is_space (hd ?u)" using hd_t(1) other(1) by simp
    moreover have "\<not> is_space (last ?u)" using hd_t(2) other(1) by (cases cs) auto
    ultimately have tr: "trim ?u = ?u" by (intro trim_fixed) simp
    have lo: "toLowerCase ?u = t"
      using fx other(1) by (simp add: toLowerCase_def lower_upper_fixed map_idI)
    have "canonReqStatus ?u = ?u"
      unfolding canonReqStatus_def normStr_def tr lo Let_def
      using nw other(1) by (simp only: if_False list.case)
    then show ?thesis by (simp add: cs)
  qed
qed

lemma isOpenForActive_canon [simp]: "isOpenForActive (canonReqStatus s) = isOpenForActive s"
  by (simp add: isOpenForActive_def canonReqStatus_idem)

lemma bar_split:
  "CHR ''|'' \<notin> set a \<Longrightarrow> CHR ''|'' \<notin> set b \<Longrightarrow> a @ CHR ''|'' # x = b @ CHR ''|'' # y \<Longrightarrow>
   a = b \<and> x = y"
proof (induction a arbitrary: b)
  case Nil
  then show ?case by (cases b) auto
next
  case (Cons c a)
  then show ?case by (cases b) auto
qed

lemma first_part_bar:
  "CHR ''|'' \<notin> set a \<Longrightarrow> first_part CHR ''|'' (a @ CHR ''|'' # x) = a"
  by (induction a) (auto simp: first_part_takeWhile)

lemma rowKey_identity:
  "hasIdentity obj \<Longrightarrow>
   rowKey now obj = trim (obj JobID) @ ''|'' @ normEmail (normEmail (obj Email))"
  unfolding rowKey_def hasIdentity_def
  by (rule keyFor_nonempty [of "trim (obj JobID)" "normEmail (obj Email)", simplified trim_idem])
     (simp add: normEmail_twice_Nil_iff)

section \<open>Properties of the reconciliation\<close>

lemma candIndexLoop_index:
  "fst (candIndexLoop now k rng index rows) =
     foldl (\<lambda>idx (i, obj). if hasIdentity obj then AList.update (rowKey now obj) i idx else idx)
       index (List.enumerate k rng)"
  by (induction rng arbitrary: k index rows) (simp_all add: Let_def hasIdentity_def rowKey_def)

lemma buildCandidateIndex_snoc:
  "fst (buildCandidateIndex now (xs @ [x])) =
     (if hasIdentity x then AList.update (rowKey now x) (length xs) (fst (buildCandidateIndex now xs))
      else fst (buildCandidateIndex now xs))"
  by (simp add: buildCandidateIndex_def candIndexLoop_index enumerate_append_eq)

lemma buildCandidateIndex_Nil [simp]: "fst (buildCandidateIndex now []) = []"
  by (simp add: buildCandidateIndex_def)

lemma index_distinct: "distinct (map fst (fst (buildCandidateIndex now sh)))"
  by (induction sh rule: rev_induct) (simp_all add: buildCandidateIndex_snoc distinct_update)

lemma index_sound:
  "map_of (fst (buildCandidateIndex now sh)) key = Some i \<Longrightarrow>
   i < length sh \<and> hasIdentity (sh ! i) \<and> rowKey now (sh ! i) = key \<and>
   (\<forall>j. i < j \<and> j < length sh \<and> hasIdentity (sh ! j) \<longrightarrow> rowKey now (sh ! j) \<noteq> key)"
proof (induction sh arbitrary: i rule: rev_induct)
  case Nil
  then show ?case by simp
next
  case (snoc x xs)
  show ?case
  proof (cases "hasIdentity x \<and> rowKey now x = key")
    case True
    then have "i = length xs"
      using snoc.prems by (simp add: buildCandidateIndex_snoc update_conv')
    then show ?thesis using True by auto
  next
    case False
    then have "map_of (fst (buildCandidateIndex now xs)) key = Some i"
      using snoc.prems by (auto simp: buildCandidateIndex_snoc update_conv' split: if_splits)
    from snoc.IH [OF this] False show ?thesis
      by (auto simp: nth_append less_Suc_eq)
  qed
qed

lemma index_complete:
  "i < length sh \<Longrightarrow> hasIdentity (sh ! i) \<Longrightarrow>
   map_of (fst (buildCandidateIndex now sh)) (rowKey now (sh ! i)) \<noteq> None"
proof (induction sh rule: rev_induct)
  case Nil
  then show ?case by simp
next
  case (snoc x xs)
  show ?case
  proof (cases "i < length xs")
    case True
    then have "map_of (fst (buildCandidateIndex now xs)) (rowKey now (xs ! i)) \<noteq> None"
      using snoc by (simp add: nth_append)
    then show ?thesis using True
      by (auto simp: buildCandidateIndex_snoc update_conv' nth_append)
  next
    case False
    then have "i = length xs" using snoc.prems by simp
    then show ?thesis using snoc.prems
      by (simp add: buildCandidateIndex_snoc update_conv')
  qed
qed

lemma index_has_iff:
  "map_of (fst (buildCandidateIndex now sh)) key \<noteq> None \<longleftrightarrow>
   (\<exists>obj \<in> set sh. hasIdentity obj \<and> rowKey now obj = key)"
  using index_sound [of now sh key] index_complete [of _ sh now]
  by (metis in_set_conv_nth not_None_eq)

lemma index_unique:
  assumes "distinct (map (rowKey now) (filter hasIdentity sh))"
    and "i < length sh" "hasIdentity (sh ! i)"
  shows "map_of (fst (buildCandidateIndex now sh)) (rowKey now (sh ! i)) = Some i"
  using assms
proof (induction sh rule: rev_induct)
  case Nil
  then show ?case by simp
next
  case (snoc x xs)
  show ?case
  proof (cases "i < length xs")
    case True
    then have i: "xs ! i \<in> set xs" "hasIdentity (xs ! i)"
      using snoc.prems by (simp_all add: nth_append)
    have "map_of (fst (buildCandidateIndex now xs)) (rowKey now (xs ! i)) = Some i"
      using snoc True by (simp add: nth_append)
    moreover have "hasIdentity x \<longrightarrow> rowKey now x \<noteq> rowKey now (xs ! i)"
      using snoc.prems(1) i by auto
    ultimately show ?thesis using True
      by (auto simp: buildCandidateIndex_snoc update_conv' nth_append)
  next
    case False
    then have "i = length xs" using snoc.prems by simp
    then show ?thesis using snoc.prems
      by (simp add: buildCandidateIndex_snoc update_conv')
  qed
qed

lemma nths_eqI:
  "(\<And>i. i < length xs \<Longrightarrow> i \<in> A \<longleftrightarrow> i \<in> B) \<Longrightarrow> nths xs A = nths xs B"
  unfolding nths_def
  by (rule arg_cong [where f = "map fst"], rule filter_cong [OF refl]) (auto simp: set_zip)

lemma nths_remove_mid:
  assumes "\<forall>j \<in> J. j < length pre"
  shows "nths (pre @ post) (- J) = nths (pre @ x # post) (- insert (length pre) J)"
proof -
  have a: "nths pre (- J) = nths pre (- insert (length pre) J)"
    by (rule nths_eqI) simp
  have b: "{j. j + length pre \<in> - J} = UNIV"
    "{j. Suc j + length pre \<in> - insert (length pre) J} = UNIV"
    using assms by fastforce+
  have c: "nths (x # post) {j. j + length pre \<in> - insert (length pre) J}
      = nths post {j. Suc j + length pre \<in> - insert (length pre) J}"
    by (simp add: nths_Cons)
  show ?thesis
    unfolding nths_append c b a by simp
qed

lemma deleteRow_nths:
  assumes "\<forall>j \<in> J. j < m"
  shows "nths (deleteRow m xs) (- J) = nths xs (- insert m J)"
proof (cases "m < length xs")
  case True
  have xs: "xs = take m xs @ xs ! m # drop (Suc m) xs"
    using True by (simp add: id_take_nth_drop [symmetric])
  have l: "length (take m xs) = m" using True by simp
  have "nths (take m xs @ drop (Suc m) xs) (- J)
      = nths (take m xs @ xs ! m # drop (Suc m) xs) (- insert (length (take m xs)) J)"
    by (rule nths_remove_mid) (use assms l in simp)
  then show ?thesis
    unfolding l xs [symmetric] by (simp add: deleteRow_def)
next
  case False
  then have "deleteRow m xs = xs" by (simp add: deleteRow_def)
  moreover have "nths xs (- J) = nths xs (- insert m J)"
    by (rule nths_eqI) (use False in auto)
  ultimately show ?thesis by simp
qed

lemma delete_descending:
  "sorted ds \<Longrightarrow> distinct ds \<Longrightarrow>
   foldl (\<lambda>sh r. deleteRow r sh) xs (rev ds) = nths xs (- set ds)"
proof (induction ds arbitrary: xs rule: rev_induct)
  case Nil
  then show ?case by (simp add: nths_all)
next
  case (snoc m ds)
  have s: "sorted ds" "distinct ds" "\<forall>j \<in> set ds. j < m"
    using snoc.prems by (auto simp: sorted_append order_less_le)
  have "foldl (\<lambda>sh r. deleteRow r sh) xs (rev (ds @ [m]))
      = foldl (\<lambda>sh r. deleteRow r sh) (deleteRow m xs) (rev ds)"
    by simp
  also have "\<dots> = nths (deleteRow m xs) (- set ds)"
    using snoc.IH [OF s(1,2)] .
  also have "\<dots> = nths xs (- insert m (set ds))"
    by (rule deleteRow_nths [OF s(3)])
  finally show ?case by simp
qed

lemma activeToDelete_all:
  "activeToDelete now [] st =
     map snd (filter (\<lambda>(key, r). \<not> keepsActive now st key) (fst (buildCandidateIndex now (act st))))"
  unfolding activeToDelete_def keepsActive_def filterJob_def Let_def
  by (rule arg_cong [where f = "map snd"], rule filter_cong [OF refl]) auto

lemma index_entries:
  "(key, i) \<in> set (fst (buildCandidateIndex now sh)) \<longleftrightarrow>
   map_of (fst (buildCandidateIndex now sh)) key = Some i"
  using index_distinct [of now sh] by simp

lemma toDelete_distinct: "distinct (activeToDelete now [] st)"
proof -
  let ?idx = "fst (buildCandidateIndex now (act st))"
  have d: "distinct ?idx" using index_distinct [of now "act st"] by (simp add: distinct_map)
  have "inj_on snd (set ?idx)"
  proof (rule inj_onI)
    fix p q assume p: "p \<in> set ?idx" and q: "q \<in> set ?idx" and e: "snd p = snd q"
    obtain k i where pk: "p = (k, i)" by (cases p)
    obtain k' i' where qk: "q = (k', i')" by (cases q)
    from p q pk qk have "map_of ?idx k = Some i" "map_of ?idx k' = Some i'"
      by (simp_all add: index_entries)
    from index_sound [OF this(1)] index_sound [OF this(2)] e pk qk show "p = q" by auto
  qed
  then have "distinct (map snd ?idx)" using d by (simp add: distinct_map)
  then show ?thesis
    unfolding activeToDelete_all by (rule distinct_map_filter)
qed

lemma toDelete_member:
  "i \<in> set (activeToDelete now [] st) \<longleftrightarrow>
   (\<exists>key. map_of (fst (buildCandidateIndex now (act st))) key = Some i \<and> \<not> keepsActive now st key)"
  unfolding activeToDelete_all by (force simp: index_entries)

lemma deletion_pass:
  "foldl (\<lambda>sh r. deleteRow r sh) (act st) (rev (sort (activeToDelete now [] st)))
     = nths (act st) (- set (activeToDelete now [] st))"
  using delete_descending [of "sort (activeToDelete now [] st)" "act st"] toDelete_distinct [of now st]
  by simp

lemma deleteRow_distinct_keys:
  "distinct (map f (filter P xs)) \<Longrightarrow> distinct (map f (filter P (deleteRow r xs)))"
proof (cases "r < length xs")
  case True
  assume d: "distinct (map f (filter P xs))"
  have "xs = take r xs @ xs ! r # drop (Suc r) xs"
    using True by (simp add: id_take_nth_drop [symmetric])
  then have "distinct (map f (filter P (take r xs @ xs ! r # drop (Suc r) xs)))"
    using d by simp
  then show ?thesis by (auto simp: deleteRow_def split: if_splits)
next
  case False
  then show "distinct (map f (filter P xs)) \<Longrightarrow> ?thesis" by (simp add: deleteRow_def)
qed

lemma deletions_distinct_keys:
  "distinct (map f (filter P xs)) \<Longrightarrow>
   distinct (map f (filter P (foldl (\<lambda>sh r. deleteRow r sh) xs ds)))"
  by (induction ds arbitrary: xs) (simp_all add: deleteRow_distinct_keys)

lemma deletion_pass_keeps:
  assumes "distinct (map (rowKey now) (filter hasIdentity (act st)))"
    and "a \<in> set (foldl (\<lambda>sh r. deleteRow r sh) (act st) (rev (sort (activeToDelete now [] st))))"
  shows "a \<in> set (act st) \<and> (hasIdentity a \<longrightarrow> keepsActive now st (rowKey now a))"
proof -
  from assms(2) obtain i where i: "i < length (act st)" "a = act st ! i"
    "i \<notin> set (activeToDelete now [] st)"
    unfolding deletion_pass by (auto simp: set_nths)
  have "keepsActive now st (rowKey now a)" if "hasIdentity a"
  proof -
    have "map_of (fst (buildCandidateIndex now (act st))) (rowKey now a) = Some i"
      using index_unique [OF assms(1) i(1)] that i(2) by simp
    then show ?thesis using i(3) unfolding toDelete_member by blast
  qed
  then show ?thesis using i by auto
qed

lemma deletion_pass_none:
  assumes "\<forall>a \<in> set (act st). hasIdentity a \<longrightarrow> keepsActive now st (rowKey now a)"
  shows "activeToDelete now [] st = []"
proof -
  have "\<not> (\<exists>i. i \<in> set (activeToDelete now [] st))"
    unfolding toDelete_member using assms index_sound [of now "act st"]
    by (metis nth_mem)
  then show ?thesis by (cases "activeToDelete now [] st") auto
qed

lemma writeCells_map:
  "writeCells hm obj (map (\<lambda>f. (f, src f)) fs) =
     (\<lambda>f. if f \<in> set fs \<and> f \<in> set hm then src f else obj f)"
proof (induction fs arbitrary: obj)
  case Nil
  then show ?case by simp
next
  case (Cons g fs)
  show ?case
    by (simp add: writeCells_Cons Cons.IH) (auto simp: fun_eq_iff)
qed

lemma desiredFields_eval:
  "desiredFields = [Stage, RejectedReason, InterviewNotes, Phone, Email, City, State,
     TargetSalary, TargetHourly, JobTitle, JobStatus, FullName, JobID]"
  by (simp add: desiredFields_def MIRRORED_FIELDS_def H_ACT_def)

lemma desiredFields_in_H_ACT: "f \<in> set desiredFields \<Longrightarrow> f \<in> set H_ACT"
  by (simp add: desiredFields_def)

lemma diff_write:
  "writeCells H_ACT old (diffFields c old desiredFields) =
     (\<lambda>f. if f \<in> set desiredFields \<and> \<not> valsEqual (c f) (old f) then c f else old f)"
  unfolding diffFields_def writeCells_map
  by (auto simp: fun_eq_iff desiredFields_in_H_ACT)

lemma new_write:
  "writeCells H_ACT blank_row (map (\<lambda>f. (f, c f)) desiredFields) =
     (\<lambda>f. if f \<in> set desiredFields then c f else [])"
  unfolding writeCells_map
  by (auto simp: fun_eq_iff desiredFields_in_H_ACT blank_row_def)

lemma valsEqual_refl [simp]: "valsEqual x x"
  by (simp add: valsEqual_def num_eq_def split: prod.splits)

lemma diffFields_Nil_iff:
  "diffFields src dst fs = [] \<longleftrightarrow> (\<forall>f \<in> set fs. valsEqual (src f) (dst f))"
  by (auto simp: diffFields_def filter_empty_conv)

lemma shown_idem:
  "shownAfterHyperlink (shownAfterHyperlink s u l) u l = shownAfterHyperlink s u l"
  by (simp add: shownAfterHyperlink_def Let_def)

lemma shown_cases: "shownAfterHyperlink s u l = s \<or> shownAfterHyperlink s u l = l"
  by (simp add: shownAfterHyperlink_def Let_def)

lemma activeLinks_other:
  "f \<noteq> Email \<Longrightarrow> f \<noteq> Phone \<Longrightarrow> activeLinks c obj f = obj f"
  by (simp add: activeLinks_def Let_def)

lemma activeLinks_Email:
  "activeLinks c obj Email =
     (if truthy (normEmail (c Email))
      then shownAfterHyperlink (obj Email) (''mailto:'' @ normEmail (c Email)) (normEmail (c Email))
      else obj Email)"
  by (simp add: activeLinks_def Let_def H_ACT_def)

lemma activeLinks_Phone:
  "activeLinks c obj Phone =
     (if truthy (normPhone (c Phone)) \<and> length (normPhone (c Phone)) \<ge> PHONE_MIN_DIGITS
      then shownAfterHyperlink (obj Phone) (''tel:'' @ normPhone (c Phone))
             (if truthy (c Phone) then c Phone else normPhone (c Phone))
      else obj Phone)"
  by (simp add: activeLinks_def Let_def H_ACT_def)

lemma activeLinks_idem: "activeLinks c (activeLinks c obj) = activeLinks c obj"
proof
  fix f show "activeLinks c (activeLinks c obj) f = activeLinks c obj f"
  proof (cases "f = Email \<or> f = Phone")
    case True
    then show ?thesis
      by (auto simp: activeLinks_Email activeLinks_Phone shown_idem)
  next
    case False
    then show ?thesis by (simp add: activeLinks_other)
  qed
qed

lemma normPhone_truthy: "truthy (normPhone p) \<Longrightarrow> truthy p"
  by (auto simp: truthy_def normPhone_def)

text \<open>The two components of the composite key of a row.\<close>

lemma key_parts_eq:
  assumes "hasIdentity a" "hasIdentity c"
    and "CHR ''|'' \<notin> set (a JobID)" "CHR ''|'' \<notin> set (c JobID)"
  shows "rowKey now a = rowKey now' c \<longleftrightarrow>
     trim (a JobID) = trim (c JobID) \<and>
     normEmail (normEmail (a Email)) = normEmail (normEmail (c Email))"
proof -
  have nb: "CHR ''|'' \<notin> set (trim (a JobID))" "CHR ''|'' \<notin> set (trim (c JobID))"
    using assms(3,4) set_trim_subset by blast+
  have ka: "rowKey now a = trim (a JobID) @ CHR ''|'' # normEmail (normEmail (a Email))"
    using rowKey_identity [OF assms(1), of now] by simp
  have kc: "rowKey now' c = trim (c JobID) @ CHR ''|'' # normEmail (normEmail (c Email))"
    using rowKey_identity [OF assms(2), of now'] by simp
  show ?thesis
  proof
    assume "rowKey now a = rowKey now' c"
    then have "trim (a JobID) @ CHR ''|'' # normEmail (normEmail (a Email))
        = trim (c JobID) @ CHR ''|'' # normEmail (normEmail (c Email))"
      by (simp only: ka kc)
    from bar_split [OF nb this]
    show "trim (a JobID) = trim (c JobID) \<and>
        normEmail (normEmail (a Email)) = normEmail (normEmail (c Email))" .
  next
    assume "trim (a JobID) = trim (c JobID) \<and>
        normEmail (normEmail (a Email)) = normEmail (normEmail (c Email))"
    then show "rowKey now a = rowKey now' c" by (simp only: ka kc)
  qed
qed

lemma rowKey_clock: "hasIdentity obj \<Longrightarrow> rowKey now obj = rowKey now' obj"
  by (simp add: rowKey_identity)

lemma full_has: "fullIdentity obj \<Longrightarrow> hasIdentity obj"
  by (simp add: fullIdentity_def hasIdentity_def)

lemma buildCandidateIndex_clock: "buildCandidateIndex now sh = buildCandidateIndex now' sh"
proof -
  have "(\<lambda>idx (i, obj). if hasIdentity obj then AList.update (rowKey now obj) i idx else idx)
      = (\<lambda>idx (i, obj). if hasIdentity obj then AList.update (rowKey now' obj) i idx else idx)"
    by (auto simp: fun_eq_iff rowKey_clock [of _ now now'])
  then have "fst (buildCandidateIndex now sh) = fst (buildCandidateIndex now' sh)"
    unfolding buildCandidateIndex_def candIndexLoop_index by (rule arg_cong [where f = "\<lambda>F. foldl F [] (List.enumerate 0 sh)"])
  moreover have "snd (buildCandidateIndex now sh) = snd (buildCandidateIndex now' sh)"
    by (simp add: buildCandidateIndex_def candIndexLoop_rows)
  ultimately show ?thesis by (simp add: prod_eq_iff)
qed

lemma keepsActive_clock: "keepsActive now st key = keepsActive now' st key"
  by (simp add: keepsActive_def buildCandidateIndex_clock [of now _ now'])

lemma mirrored_row_key:
  assumes c: "fullIdentity c"
    and b: "trim (b JobID) = trim (c JobID)"
      "normEmail (normEmail (b Email)) = normEmail (normEmail (c Email))"
  shows "fullIdentity (activeLinks c b) \<and> rowKey now (activeLinks c b) = rowKey now c \<and>
         (activeLinks c b) JobID = b JobID"
proof -
  let ?a = "activeLinks c b"
  have j: "?a JobID = b JobID" by (simp add: activeLinks_other)
  have "?a Email = b Email \<or> ?a Email = normEmail (c Email)"
    using shown_cases by (auto simp: activeLinks_Email)
  then have e: "normEmail (normEmail (?a Email)) = normEmail (normEmail (c Email))"
    using b(2) by (auto simp: normEmail_stable)
  have f: "fullIdentity ?a"
    using c e j b(1) normEmail_twice_Nil_iff [of "?a Email"] normEmail_twice_Nil_iff [of "c Email"]
    by (simp add: fullIdentity_def)
  show ?thesis
    using f j e b(1)
    by (simp add: rowKey_identity [OF full_has [OF f]] rowKey_identity [OF full_has [OF c]])
qed

lemma mirrored_row_settled:
  assumes "valsEqual (c Email) (normEmail (c Email))"
    and "\<forall>f \<in> set desiredFields. valsEqual (c f) (b f)"
  shows "activeRowSettled c (activeLinks c b)"
proof -
  have "valsEqual (c f) (activeLinks c b f)" if f: "f \<in> set desiredFields" for f
  proof -
    consider "f = Email" | "f = Phone" | "f \<noteq> Email" "f \<noteq> Phone" by blast
    then show ?thesis
    proof cases
      case 1
      then show ?thesis
        using shown_cases [of "b Email" "''mailto:'' @ normEmail (c Email)" "normEmail (c Email)"]
          assms f by (auto simp: activeLinks_Email)
    next
      case 2
      then show ?thesis
        using shown_cases [of "b Phone" "''tel:'' @ normPhone (c Phone)" "c Phone"]
          assms(2) f normPhone_truthy [of "c Phone"]
        by (auto simp: activeLinks_Phone)
    next
      case 3
      then show ?thesis using assms(2) f by (simp add: activeLinks_other)
    qed
  qed
  then show ?thesis
    by (simp add: activeRowSettled_def diffFields_Nil_iff activeLinks_idem)
qed

lemma upsert_unfold:
  assumes "fullIdentity c"
  shows "upsertActiveRow now c actSh =
     (case map_of (fst (buildCandidateIndex now actSh)) (rowKey now c) of
        Some i \<Rightarrow>
          (actSh[i := activeLinks c (writeCells H_ACT (actSh ! i) (diffFields c (actSh ! i) desiredFields))],
           if diffFields c (actSh ! i) desiredFields \<noteq> []
           then [WriteActive i (diffFields c (actSh ! i) desiredFields)] else [])
      | None \<Rightarrow>
          (actSh @ [activeLinks c (writeCells H_ACT blank_row (map (\<lambda>f. (f, c f)) desiredFields))],
           [InsertActiveRow (length actSh)]))"
proof (cases "map_of (fst (buildCandidateIndex now actSh)) (rowKey now c)")
  case None
  then show ?thesis
    using assms
    by (simp add: upsertActiveRow_def Let_def normStr_def fullIdentity_def rowKey_def)
next
  case (Some i)
  from index_sound [OF Some] have i: "i < length actSh" by simp
  show ?thesis
    using assms Some i
    by (simp add: upsertActiveRow_def Let_def normStr_def fullIdentity_def rowKey_def [symmetric]
        getRowObjectByHeaders_def setRowValuesByHeaders_def)
qed

lemma upsert_effect:
  assumes c: "fullIdentity c" and nbc: "CHR ''|'' \<notin> set (c JobID)"
    and N: "\<forall>a \<in> set actSh. CHR ''|'' \<notin> set (a JobID)"
  shows "\<exists>a'. fullIdentity a' \<and> rowKey now a' = rowKey now c \<and> CHR ''|'' \<notin> set (a' JobID) \<and>
     (valsEqual (c Email) (normEmail (c Email)) \<longrightarrow> activeRowSettled c a') \<and>
     ((\<exists>i<length actSh. hasIdentity (actSh ! i) \<and> rowKey now (actSh ! i) = rowKey now c \<and>
          fst (upsertActiveRow now c actSh) = actSh[i := a']) \<or>
      ((\<forall>a \<in> set actSh. hasIdentity a \<longrightarrow> rowKey now a \<noteq> rowKey now c) \<and>
          fst (upsertActiveRow now c actSh) = actSh @ [a']))"
proof (cases "map_of (fst (buildCandidateIndex now actSh)) (rowKey now c)")
  case None
  let ?b = "writeCells H_ACT blank_row (map (\<lambda>f. (f, c f)) desiredFields)"
  have mem: "JobID \<in> set desiredFields" "Email \<in> set desiredFields"
    by (simp_all add: desiredFields_eval)
  have b: "?b JobID = c JobID" "?b Email = c Email" "\<forall>f \<in> set desiredFields. valsEqual (c f) (?b f)"
    unfolding new_write using mem by auto
  note k = mirrored_row_key [OF c, of ?b now]
  have s: "valsEqual (c Email) (normEmail (c Email)) \<longrightarrow> activeRowSettled c (activeLinks c ?b)"
    using mirrored_row_settled [OF _ b(3)] by simp
  have no: "\<forall>a \<in> set actSh. hasIdentity a \<longrightarrow> rowKey now a \<noteq> rowKey now c"
    using None index_has_iff [of now actSh "rowKey now c"] by auto
  have u: "fst (upsertActiveRow now c actSh) = actSh @ [activeLinks c ?b]"
    by (simp add: upsert_unfold [OF c] None)
  show ?thesis
    using k b(1,2) s no u nbc by (intro exI [of _ "activeLinks c ?b"]) simp
next
  case (Some i)
  from index_sound [OF Some]
  have i: "i < length actSh" "hasIdentity (actSh ! i)" "rowKey now (actSh ! i) = rowKey now c" by auto
  let ?old = "actSh ! i"
  let ?b = "writeCells H_ACT ?old (diffFields c ?old desiredFields)"
  have nbo: "CHR ''|'' \<notin> set (?old JobID)" using N i(1) by simp
  from key_parts_eq [OF i(2) full_has [OF c] nbo nbc, of now now] i(3)
  have parts: "trim (?old JobID) = trim (c JobID)"
    "normEmail (normEmail (?old Email)) = normEmail (normEmail (c Email))" by auto
  have bj: "?b JobID = c JobID \<or> ?b JobID = ?old JobID"
    and be: "?b Email = c Email \<or> ?b Email = ?old Email"
    and bv: "\<forall>f \<in> set desiredFields. valsEqual (c f) (?b f)"
    unfolding diff_write by auto
  have b: "trim (?b JobID) = trim (c JobID)"
    "normEmail (normEmail (?b Email)) = normEmail (normEmail (c Email))"
    using bj be parts by auto
  note k = mirrored_row_key [OF c b, of now]
  have s: "valsEqual (c Email) (normEmail (c Email)) \<longrightarrow> activeRowSettled c (activeLinks c ?b)"
    using mirrored_row_settled [OF _ bv] by simp
  have nb: "CHR ''|'' \<notin> set ((activeLinks c ?b) JobID)"
    using k bj nbo nbc by auto
  have u: "fst (upsertActiveRow now c actSh) = actSh[i := activeLinks c ?b]"
    by (simp add: upsert_unfold [OF c] Some)
  show ?thesis
    using k s nb u i by (intro exI [of _ "activeLinks c ?b"]) auto
qed

lemma upsert_settled:
  assumes c: "fullIdentity c"
    and "map_of (fst (buildCandidateIndex now actSh)) (rowKey now c) = Some i"
    and "activeRowSettled c (actSh ! i)"
  shows "upsertActiveRow now c actSh = (actSh, [])"
  using assms(2,3) by (simp add: upsert_unfold [OF c] activeRowSettled_def)

lemma update_same_keys:
  assumes "i < length xs" "P (xs ! i)" "P a" "f a = f (xs ! i)"
  shows "map f (filter P (xs[i := a])) = map f (filter P xs)"
proof -
  have "xs = take i xs @ xs ! i # drop (Suc i) xs"
    using assms(1) by (simp add: id_take_nth_drop [symmetric])
  then have "map f (filter P xs) = map f (filter P (take i xs @ xs ! i # drop (Suc i) xs))"
    by simp
  moreover have "xs[i := a] = take i xs @ a # drop (Suc i) xs"
    using assms(1) by (simp add: upd_conv_take_nth_drop)
  ultimately show ?thesis using assms(2,3,4) by simp
qed

lemma upsert_rows:
  assumes c: "fullIdentity c" and nbc: "CHR ''|'' \<notin> set (c JobID)"
    and N: "\<forall>a \<in> set actSh. CHR ''|'' \<notin> set (a JobID)"
  shows "(\<forall>a \<in> set (fst (upsertActiveRow now c actSh)).
            a \<in> set actSh \<or> (fullIdentity a \<and> rowKey now a = rowKey now c \<and> CHR ''|'' \<notin> set (a JobID)))"
    and "(\<forall>a \<in> set actSh. hasIdentity a \<and> rowKey now a \<noteq> rowKey now c
            \<longrightarrow> a \<in> set (fst (upsertActiveRow now c actSh)))"
    and "(\<exists>a \<in> set (fst (upsertActiveRow now c actSh)). fullIdentity a \<and> rowKey now a = rowKey now c \<and>
            (valsEqual (c Email) (normEmail (c Email)) \<longrightarrow> activeRowSettled c a))"
    and "distinct (map (rowKey now) (filter hasIdentity actSh)) \<Longrightarrow>
         distinct (map (rowKey now) (filter hasIdentity (fst (upsertActiveRow now c actSh))))"
proof -
  from upsert_effect [OF c nbc N, of now] obtain a' where
    a: "fullIdentity a'" "rowKey now a' = rowKey now c" "CHR ''|'' \<notin> set (a' JobID)"
      "valsEqual (c Email) (normEmail (c Email)) \<longrightarrow> activeRowSettled c a'"
    and cases: "(\<exists>i<length actSh. hasIdentity (actSh ! i) \<and> rowKey now (actSh ! i) = rowKey now c \<and>
          fst (upsertActiveRow now c actSh) = actSh[i := a']) \<or>
      ((\<forall>a \<in> set actSh. hasIdentity a \<longrightarrow> rowKey now a \<noteq> rowKey now c) \<and>
          fst (upsertActiveRow now c actSh) = actSh @ [a'])"
    by blast
  let ?r = "fst (upsertActiveRow now c actSh)"
  from cases consider
    (upd) i where "i < length actSh" "hasIdentity (actSh ! i)"
      "rowKey now (actSh ! i) = rowKey now c" "?r = actSh[i := a']"
    | (app) "\<forall>a \<in> set actSh. hasIdentity a \<longrightarrow> rowKey now a \<noteq> rowKey now c" "?r = actSh @ [a']"
    by blast
  note cs = this
  show "\<forall>a \<in> set ?r. a \<in> set actSh \<or> (fullIdentity a \<and> rowKey now a = rowKey now c \<and> CHR ''|'' \<notin> set (a JobID))"
  proof (cases rule: cs)
    case (upd i)
    then show ?thesis using a set_update_subset_insert [of actSh i a'] by auto
  next
    case app
    then show ?thesis using a by auto
  qed
  show "\<forall>a \<in> set actSh. hasIdentity a \<and> rowKey now a \<noteq> rowKey now c \<longrightarrow> a \<in> set ?r"
  proof (cases rule: cs)
    case (upd i)
    show ?thesis
    proof (intro ballI impI)
      fix b assume b: "b \<in> set actSh" "hasIdentity b \<and> rowKey now b \<noteq> rowKey now c"
      then obtain j where j: "j < length actSh" "actSh ! j = b" by (auto simp: in_set_conv_nth)
      then have "j \<noteq> i" using b upd by auto
      then have "actSh[i := a'] ! j = b" using j by simp
      then show "b \<in> set ?r" using j(1) upd(4) by (metis length_list_update nth_mem)
    qed
  next
    case app
    then show ?thesis by auto
  qed
  show "\<exists>a \<in> set ?r. fullIdentity a \<and> rowKey now a = rowKey now c \<and>
            (valsEqual (c Email) (normEmail (c Email)) \<longrightarrow> activeRowSettled c a)"
  proof (cases rule: cs)
    case (upd i)
    then have "a' \<in> set ?r" by (simp add: set_update_memI)
    then show ?thesis using a by blast
  next
    case app
    then show ?thesis using a by auto
  qed
  show "distinct (map (rowKey now) (filter hasIdentity ?r))"
    if d: "distinct (map (rowKey now) (filter hasIdentity actSh))"
  proof (cases rule: cs)
    case (upd i)
    then show ?thesis
      using d a update_same_keys [of i actSh hasIdentity a' "rowKey now"]
      by (simp add: full_has)
  next
    case app
    then show ?thesis using d a by (auto simp: full_has)
  qed
qed

lemma mirror_cases:
  "mirrorJobFields now rObj d = d \<and>
     valsEqual (rObj JobTitle) (d JobTitle) \<and> valsEqual (canonReqStatus (rObj JobStatus)) (d JobStatus)
   \<or> (\<exists>t s u. mirrorJobFields now rObj d = d(JobTitle := t, JobStatus := s, Updated := u) \<and>
        valsEqual (rObj JobTitle) t \<and> valsEqual (canonReqStatus (rObj JobStatus)) s)"
proof -
  let ?a = "valsEqual (rObj JobTitle) (d JobTitle)"
  let ?b = "valsEqual (canonReqStatus (rObj JobStatus)) (d JobStatus)"
  consider "?a" "?b" | "?a" "\<not> ?b" | "\<not> ?a" "?b" | "\<not> ?a" "\<not> ?b" by blast
  then show ?thesis
  proof cases
    case 1
    then show ?thesis by (simp add: mirrorJobFields_def diffFields_def)
  next
    case 2
    then have "mirrorJobFields now rObj d =
        d(JobTitle := d JobTitle, JobStatus := canonReqStatus (rObj JobStatus), Updated := of_date now)"
      by (simp add: mirrorJobFields_def diffFields_def fun_upd_twist)
    then show ?thesis using 2 valsEqual_refl by blast
  next
    case 3
    then have "mirrorJobFields now rObj d =
        d(JobTitle := rObj JobTitle, JobStatus := d JobStatus, Updated := of_date now)"
      by (simp add: mirrorJobFields_def diffFields_def fun_upd_twist)
    then show ?thesis using 3 valsEqual_refl by blast
  next
    case 4
    then have "mirrorJobFields now rObj d =
        d(JobTitle := rObj JobTitle, JobStatus := canonReqStatus (rObj JobStatus), Updated := of_date now)"
      by (simp add: mirrorJobFields_def diffFields_def)
    then show ?thesis using valsEqual_refl by blast
  qed
qed

lemma mirror_other:
  "f \<noteq> JobTitle \<Longrightarrow> f \<noteq> JobStatus \<Longrightarrow> f \<noteq> Updated \<Longrightarrow> mirrorJobFields now rObj d f = d f"
  using mirror_cases [of now rObj d] by auto

lemma mirror_identity:
  "mirrorJobFields now rObj d JobID = d JobID" "mirrorJobFields now rObj d Email = d Email"
  "fullIdentity (mirrorJobFields now rObj d) = fullIdentity d"
  "hasIdentity (mirrorJobFields now rObj d) = hasIdentity d"
  "rowKey now' (mirrorJobFields now rObj d) = rowKey now' d"
  by (simp_all add: mirror_other fullIdentity_def hasIdentity_def rowKey_def)

lemma mirror_diff_Nil:
  "diffFields (blank_row(JobTitle := rObj JobTitle, JobStatus := canonReqStatus (rObj JobStatus)))
     (mirrorJobFields now rObj d) [JobTitle, JobStatus] = []"
  using mirror_cases [of now rObj d] by (auto simp: diffFields_def)

lemma mirror_fixed:
  "mirrorJobFields now' rObj (mirrorJobFields now rObj d) = mirrorJobFields now rObj d"
  using mirror_diff_Nil [of rObj now d] by (simp add: mirrorJobFields_def [of now'])

lemma writeCells_all:
  "\<forall>u \<in> set us. fst u \<in> set hm \<Longrightarrow>
   writeCells hm d us = foldl (\<lambda>d (k2, v2). d(k2 := v2)) d us"
  unfolding writeCells_def
  by (induction us arbitrary: d) (auto split: prod.splits)

lemma mirror_write:
  "writeCells H_ALL d
     (let diff = diffFields (blank_row(JobTitle := rObj JobTitle, JobStatus := canonReqStatus (rObj JobStatus)))
                   d [JobTitle, JobStatus]
      in if diff \<noteq> [] then diff @ [(Updated, of_date now)] else [])
   = mirrorJobFields now rObj d"
  unfolding mirrorJobFields_def Let_def
  by (rule writeCells_all) (auto simp: diffFields_def H_ALL_def)

lemma step_full:
  assumes r: "r < length allSh" "allSh ! r = d"
  shows "\<exists>log'. reconcileStep now [] reqSh recent (allSh, actSh, pk, log) (r, d) =
    (if \<not> fullIdentity d \<or> rowKey now d \<in> set pk then (allSh, actSh, pk, log')
     else (allSh[r := (case map_of (buildReqIndex reqSh) (trim (d JobID)) of
                         None \<Rightarrow> d
                       | Some q \<Rightarrow> mirrorJobFields now (getRowObjectByHeaders reqSh q) d)],
           (case map_of (buildReqIndex reqSh) (trim (d JobID)) of
              None \<Rightarrow> actSh
            | Some q \<Rightarrow>
                if isOpenForActive (reqStatusOf reqSh (trim (d JobID))) \<and> rowKey now d \<notin> set recent
                then fst (upsertActiveRow now (mirrorJobFields now (getRowObjectByHeaders reqSh q) d) actSh)
                else actSh),
           pk @ [rowKey now d], log'))"
proof (cases "\<not> fullIdentity d \<or> rowKey now d \<in> set pk")
  case True
  then show ?thesis
    by (auto simp: reconcileStep_def fullIdentity_def rowKey_def normStr_def filterJob_def Let_def)
next
  case False
  then have f: "trim (d JobID) \<noteq> []" "normEmail (d Email) \<noteq> []"
    "keyFor now (trim (d JobID)) (normEmail (d Email)) \<notin> set pk"
    by (auto simp: fullIdentity_def rowKey_def)
  show ?thesis
  proof (cases "map_of (buildReqIndex reqSh) (trim (d JobID))")
    case None
    have "allSh[r := d] = allSh" using r by (metis list_update_id)
    then show ?thesis using False f None
      by (simp add: reconcileStep_def normStr_def filterJob_def Let_def rowKey_def)
  next
    case (Some q)
    let ?rObj = "getRowObjectByHeaders reqSh q"
    let ?diff = "diffFields (blank_row(JobTitle := ?rObj JobTitle, JobStatus := canonReqStatus (?rObj JobStatus)))
                   d [JobTitle, JobStatus]"
    let ?diffAll = "if ?diff \<noteq> [] then ?diff @ [(Updated, of_date now)] else []"
    have w: "writeCells H_ALL d ?diffAll = mirrorJobFields now ?rObj d"
      using mirror_write [of d ?rObj now] by (simp add: Let_def)
    have m: "foldl (\<lambda>d (k2, v2). d(k2 := v2)) d ?diffAll = mirrorJobFields now ?rObj d"
      by (simp add: mirrorJobFields_def Let_def)
    have e: "?diff = [] \<Longrightarrow> mirrorJobFields now ?rObj d = d"
      by (simp add: mirrorJobFields_def Let_def)
    have a1: "(if ?diff \<noteq> [] then setRowValuesByHeaders H_ALL r ?diffAll allSh else allSh)
              = allSh[r := mirrorJobFields now ?rObj d]"
    proof (cases "?diff = []")
      case True
      have "allSh[r := d] = allSh" using r by (metis list_update_id)
      then show ?thesis using e True by simp
    next
      case False
      have "setRowValuesByHeaders H_ALL r ?diffAll allSh = allSh[r := writeCells H_ALL d ?diffAll]"
        using r by (simp add: setRowValuesByHeaders_def)
      then show ?thesis using False w by simp
    qed
    have st: "reqStatusOf reqSh (trim (d JobID)) = ?rObj JobStatus"
      by (simp add: reqStatusOf_def Some)
    have "reconcileStep now [] reqSh recent (allSh, actSh, pk, log) (r, d) =
      (let allSh1 = (if ?diff \<noteq> [] then setRowValuesByHeaders H_ALL r ?diffAll allSh else allSh);
           data1 = foldl (\<lambda>d (k2, v2). d(k2 := v2)) d ?diffAll;
           log1 = log @ (if ?diff \<noteq> [] then [WriteAll r ?diffAll] else [])
       in if isOpenForActive (canonReqStatus (?rObj JobStatus)) \<and> rowKey now d \<notin> set recent
          then (case upsertActiveRow now data1 actSh of
                  (actSh1, w) \<Rightarrow> (allSh1, actSh1, pk @ [rowKey now d], log1 @ w))
          else (allSh1, actSh, pk @ [rowKey now d], log1))"
      using f Some
      by (simp add: reconcileStep_def normStr_def filterJob_def Let_def rowKey_def)
    also have "\<dots> =
      (let log1 = log @ (if ?diff \<noteq> [] then [WriteAll r ?diffAll] else [])
       in if isOpenForActive (?rObj JobStatus) \<and> rowKey now d \<notin> set recent
          then (allSh[r := mirrorJobFields now ?rObj d],
                fst (upsertActiveRow now (mirrorJobFields now ?rObj d) actSh),
                pk @ [rowKey now d],
                log1 @ snd (upsertActiveRow now (mirrorJobFields now ?rObj d) actSh))
          else (allSh[r := mirrorJobFields now ?rObj d], actSh, pk @ [rowKey now d], log1))"
      unfolding a1 m Let_def by (simp add: case_prod_beta)
    finally show ?thesis using False Some st by (simp add: Let_def)
  qed
qed

lemma rows_eq:
  "snd (buildCandidateIndex now sh) = filter (\<lambda>(r, obj). hasIdentity obj) (List.enumerate 0 sh)"
  by (simp add: buildCandidateIndex_def candIndexLoop_rows hasIdentity_def)

lemma rows_take_Suc:
  assumes "n < length sh"
  shows "filter (\<lambda>(r, obj). hasIdentity obj) (List.enumerate 0 (take (Suc n) sh)) =
         filter (\<lambda>(r, obj). hasIdentity obj) (List.enumerate 0 (take n sh)) @
           (if hasIdentity (sh ! n) then [(n, sh ! n)] else [])"
proof -
  have "take (Suc n) sh = take n sh @ [sh ! n]"
    using assms by (simp add: take_Suc_conv_app_nth)
  moreover have "length (take n sh) = n" using assms by simp
  ultimately show ?thesis by (simp add: enumerate_append_eq)
qed

lemma isOpenForActive_Nil [simp]: "\<not> isOpenForActive []"
  by (simp add: isOpenForActive_def canon_words)

lemma same_key:
  assumes "hasIdentity a" "hasIdentity c"
    and "CHR ''|'' \<notin> set (a JobID)" "CHR ''|'' \<notin> set (c JobID)"
    and "rowKey now a = rowKey now' c"
  shows "trim (a JobID) = trim (c JobID)" "fullIdentity a \<longleftrightarrow> fullIdentity c"
proof -
  have e: "trim (a JobID) = trim (c JobID) \<and>
     normEmail (normEmail (a Email)) = normEmail (normEmail (c Email))"
    using key_parts_eq [OF assms(1-4), of now now'] assms(5) by simp
  then show "trim (a JobID) = trim (c JobID)" by simp
  have "normEmail (a Email) = [] \<longleftrightarrow> normEmail (c Email) = []"
    using e normEmail_twice_Nil_iff by metis
  then show "fullIdentity a \<longleftrightarrow> fullIdentity c"
    using e by (simp add: fullIdentity_def)
qed

lemma key_job:
  assumes "hasIdentity c" "CHR ''|'' \<notin> set (c JobID)"
  shows "first_part CHR ''|'' (rowKey now c) = trim (c JobID)"
proof -
  have "CHR ''|'' \<notin> set (trim (c JobID))" using assms(2) set_trim_subset by blast
  then show ?thesis using rowKey_identity [OF assms(1), of now] by (simp add: first_part_bar)
qed

lemma keeps_key:
  assumes "c \<in> set (allc st)" "hasIdentity c" "CHR ''|'' \<notin> set (c JobID)"
    and "isOpenForActive (reqStatusOf (req st) (trim (c JobID)))"
  shows "keepsActive now st (rowKey now c)"
  unfolding keepsActive_def index_has_iff key_job [OF assms(2,3)]
  using assms(1,2,4) by blast

lemma first_iff:
  assumes "set pk = {rowKey now (sh ! r) | r. r < n \<and> fullIdentity (sh ! r)}"
  shows "firstWithKey now sh n \<longleftrightarrow> fullIdentity (sh ! n) \<and> rowKey now (sh ! n) \<notin> set pk"
  unfolding firstWithKey_def assms by auto

lemma inv_extend:
  assumes inv: "runInvariant now st n (allSh, actSh, pk, log)"
    and n: "n < length (allc st)"
    and F1: "allSh' = allSh[n := rowAfterRun now st n]"
    and F2: "set pk' = set pk \<union> (if fullIdentity (allc st ! n) then {rowKey now (allc st ! n)} else {})"
    and J: "\<forall>a \<in> set actSh'. hasIdentity a \<longrightarrow> keepsActive now st (rowKey now a)"
    and N: "\<forall>a \<in> set actSh'. CHR ''|'' \<notin> set (a JobID)"
    and D: "distinct (map (rowKey now) (filter hasIdentity actSh'))"
    and sup: "\<forall>a \<in> set actSh. hasIdentity a \<longrightarrow>
               (\<exists>a' \<in> set actSh'. hasIdentity a' \<and> rowKey now a' = rowKey now a)"
    and keep: "\<forall>a \<in> set actSh. hasIdentity a \<and>
               (firstWithKey now (allc st) n \<longrightarrow> rowKey now a \<noteq> rowKey now (allc st ! n))
               \<longrightarrow> a \<in> set actSh'"
    and F4: "fullIdentity (allc st ! n) \<and>
             isOpenForActive (reqStatusOf (req st) (trim ((allc st ! n) JobID))) \<and>
             rowKey now (allc st ! n) \<notin> set (recentEdits st) \<longrightarrow>
             (\<exists>a \<in> set actSh'. hasIdentity a \<and> rowKey now a = rowKey now (allc st ! n) \<and>
                (firstWithKey now (allc st) n \<and> valsEqual ((allc st ! n) Email) (normEmail ((allc st ! n) Email))
                   \<longrightarrow> activeRowSettled (rowAfterRun now st n) a))"
  shows "runInvariant now st (Suc n) (allSh', actSh', pk', log')"
proof -
  let ?A = "allc st"
  let ?K = "rowKey now"
  let ?op = "\<lambda>r. isOpenForActive (reqStatusOf (req st) (trim ((?A ! r) JobID))) \<and>
                 rowKey now (?A ! r) \<notin> set (recentEdits st)"
  from inv have
    a: "length allSh = length ?A"
    and b: "\<forall>r. n \<le> r \<and> r < length ?A \<longrightarrow> allSh ! r = ?A ! r"
    and h: "\<forall>r<n. allSh ! r = rowAfterRun now st r"
    and c: "set pk = {?K (?A ! r) | r. r < n \<and> fullIdentity (?A ! r)}"
    and g: "\<forall>r<n. fullIdentity (?A ! r) \<and> ?op r
           \<longrightarrow> (\<exists>a \<in> set actSh. hasIdentity a \<and> ?K a = ?K (?A ! r))"
    and i: "\<forall>r<n. firstWithKey now ?A r \<and> ?op r \<and> valsEqual ((?A ! r) Email) (normEmail ((?A ! r) Email))
           \<longrightarrow> (\<exists>a \<in> set actSh. hasIdentity a \<and> ?K a = ?K (?A ! r) \<and>
                  activeRowSettled (rowAfterRun now st r) a)"
    unfolding runInvariant_def prod.case by blast+
  have a': "length allSh' = length ?A" using a F1 by simp
  have b': "\<forall>r. Suc n \<le> r \<and> r < length ?A \<longrightarrow> allSh' ! r = ?A ! r"
    using b F1 by simp
  have h': "\<forall>r<Suc n. allSh' ! r = rowAfterRun now st r"
  proof (intro allI impI)
    fix r assume "r < Suc n"
    then consider "r < n" | "r = n" by linarith
    then show "allSh' ! r = rowAfterRun now st r"
    proof cases
      case 1
      then show ?thesis using h F1 by simp
    next
      case 2
      then show ?thesis using F1 a n by simp
    qed
  qed
  have c': "set pk' = {?K (?A ! r) | r. r < Suc n \<and> fullIdentity (?A ! r)}"
    unfolding F2 c by (auto simp: less_Suc_eq)
  have g': "\<forall>r<Suc n. fullIdentity (?A ! r) \<and> ?op r
           \<longrightarrow> (\<exists>a \<in> set actSh'. hasIdentity a \<and> ?K a = ?K (?A ! r))"
  proof (intro allI impI)
    fix r assume r: "r < Suc n" and p: "fullIdentity (?A ! r) \<and> ?op r"
    from r consider "r < n" | "r = n" by linarith
    then show "\<exists>a \<in> set actSh'. hasIdentity a \<and> ?K a = ?K (?A ! r)"
    proof cases
      case 1
      then obtain a0 where "a0 \<in> set actSh" "hasIdentity a0" "?K a0 = ?K (?A ! r)"
        using g p by blast
      then show ?thesis using sup by metis
    next
      case 2
      then show ?thesis using F4 p by blast
    qed
  qed
  have i': "\<forall>r<Suc n. firstWithKey now ?A r \<and> ?op r \<and> valsEqual ((?A ! r) Email) (normEmail ((?A ! r) Email))
           \<longrightarrow> (\<exists>a \<in> set actSh'. hasIdentity a \<and> ?K a = ?K (?A ! r) \<and>
                  activeRowSettled (rowAfterRun now st r) a)"
  proof (intro allI impI)
    fix r assume r: "r < Suc n"
      and p: "firstWithKey now ?A r \<and> ?op r \<and> valsEqual ((?A ! r) Email) (normEmail ((?A ! r) Email))"
    from r consider "r < n" | "r = n" by linarith
    then show "\<exists>a \<in> set actSh'. hasIdentity a \<and> ?K a = ?K (?A ! r) \<and>
                  activeRowSettled (rowAfterRun now st r) a"
    proof cases
      case 1
      then obtain a0 where a0: "a0 \<in> set actSh" "hasIdentity a0" "?K a0 = ?K (?A ! r)"
        "activeRowSettled (rowAfterRun now st r) a0"
        using i p by blast
      have fr: "fullIdentity (?A ! r)" using p by (simp add: firstWithKey_def)
      have "firstWithKey now ?A n \<longrightarrow> ?K a0 \<noteq> ?K (?A ! n)"
        using 1 fr a0(3) by (auto simp: firstWithKey_def [of now ?A n])
      then have "a0 \<in> set actSh'" using keep a0(1,2) by blast
      then show ?thesis using a0 by blast
    next
      case 2
      have "fullIdentity (?A ! n)" using p 2 by (simp add: firstWithKey_def)
      then show ?thesis using F4 p 2 by blast
    qed
  qed
  show ?thesis
    unfolding runInvariant_def prod.case
    using a' b' h' c' J N D g' i' by blast
qed

lemma inv_step:
  assumes nobar: "\<forall>c \<in> set (allc st). CHR ''|'' \<notin> set (c JobID)"
    and n: "n < length (allc st)"
    and inv: "runInvariant now st n s"
  shows "runInvariant now st (Suc n)
           (if hasIdentity (allc st ! n)
            then reconcileStep now [] (req st) (recentEdits st) s (n, allc st ! n) else s)"
proof -
  let ?A = "allc st"
  let ?K = "rowKey now"
  obtain allSh actSh pk log where s: "s = (allSh, actSh, pk, log)" by (cases s)
  define d where "d = ?A ! n"
  note inv' = inv [unfolded s]
  from inv' have
    a: "length allSh = length ?A"
    and b: "\<forall>r. n \<le> r \<and> r < length ?A \<longrightarrow> allSh ! r = ?A ! r"
    and c: "set pk = {?K (?A ! r) | r. r < n \<and> fullIdentity (?A ! r)}"
    and J: "\<forall>a \<in> set actSh. hasIdentity a \<longrightarrow> keepsActive now st (?K a)"
    and N: "\<forall>a \<in> set actSh. CHR ''|'' \<notin> set (a JobID)"
    and D: "distinct (map ?K (filter hasIdentity actSh))"
    and g: "\<forall>r<n. fullIdentity (?A ! r) \<and>
               isOpenForActive (reqStatusOf (req st) (trim ((?A ! r) JobID))) \<and>
               ?K (?A ! r) \<notin> set (recentEdits st)
           \<longrightarrow> (\<exists>a \<in> set actSh. hasIdentity a \<and> ?K a = ?K (?A ! r))"
    unfolding runInvariant_def prod.case by blast+
  have dn: "allSh ! n = d" "n < length allSh" using a b n by (simp_all add: d_def)
  have dmem: "d \<in> set ?A" using n by (simp add: d_def)
  have dbar: "CHR ''|'' \<notin> set (d JobID)" using nobar dmem by blast
  have first: "firstWithKey now ?A n \<longleftrightarrow> fullIdentity d \<and> ?K d \<notin> set pk"
    using first_iff [OF c] by (simp add: d_def)
  from step_full [OF dn(2,1), of now "req st" "recentEdits st" actSh pk log]
  obtain log' where step: "reconcileStep now [] (req st) (recentEdits st) (allSh, actSh, pk, log) (n, d) =
    (if \<not> fullIdentity d \<or> ?K d \<in> set pk then (allSh, actSh, pk, log')
     else (allSh[n := (case map_of (buildReqIndex (req st)) (trim (d JobID)) of
                         None \<Rightarrow> d
                       | Some q \<Rightarrow> mirrorJobFields now (getRowObjectByHeaders (req st) q) d)],
           (case map_of (buildReqIndex (req st)) (trim (d JobID)) of
              None \<Rightarrow> actSh
            | Some q \<Rightarrow>
                if isOpenForActive (reqStatusOf (req st) (trim (d JobID))) \<and>
                   ?K d \<notin> set (recentEdits st)
                then fst (upsertActiveRow now (mirrorJobFields now (getRowObjectByHeaders (req st) q) d) actSh)
                else actSh),
           pk @ [?K d], log'))"
    by blast
  consider (skip) "\<not> fullIdentity d \<or> ?K d \<in> set pk"
    | (same) "fullIdentity d" "?K d \<notin> set pk"
        "map_of (buildReqIndex (req st)) (trim (d JobID)) = None \<or>
         \<not> isOpenForActive (reqStatusOf (req st) (trim (d JobID))) \<or>
         ?K d \<in> set (recentEdits st)"
    | (ups) q where "fullIdentity d" "?K d \<notin> set pk"
        "map_of (buildReqIndex (req st)) (trim (d JobID)) = Some q"
        "isOpenForActive (reqStatusOf (req st) (trim (d JobID)))"
        "?K d \<notin> set (recentEdits st)"
    by (cases "map_of (buildReqIndex (req st)) (trim (d JobID))") auto
  then show ?thesis
  proof cases
    case skip
    have nf: "\<not> firstWithKey now ?A n" using first skip by blast
    have ra: "rowAfterRun now st n = d" using nf by (simp add: rowAfterRun_def d_def Let_def)
    have F1: "allSh = allSh[n := rowAfterRun now st n]"
      unfolding ra using dn by (metis list_update_id)
    have F2: "set pk = set pk \<union> (if fullIdentity (?A ! n) then {?K (?A ! n)} else {})"
      using skip by (auto simp: d_def)
    have F4: "fullIdentity (?A ! n) \<and>
             isOpenForActive (reqStatusOf (req st) (trim ((?A ! n) JobID))) \<and>
             ?K (?A ! n) \<notin> set (recentEdits st) \<longrightarrow>
             (\<exists>a \<in> set actSh. hasIdentity a \<and> ?K a = ?K (?A ! n) \<and>
                (firstWithKey now ?A n \<and> valsEqual ((?A ! n) Email) (normEmail ((?A ! n) Email))
                   \<longrightarrow> activeRowSettled (rowAfterRun now st n) a))"
    proof
      assume p: "fullIdentity (?A ! n) \<and>
             isOpenForActive (reqStatusOf (req st) (trim ((?A ! n) JobID))) \<and>
             ?K (?A ! n) \<notin> set (recentEdits st)"
      then have "?K d \<in> set pk" using skip by (simp add: d_def)
      then obtain r where r: "r < n" "fullIdentity (?A ! r)" "?K (?A ! r) = ?K d"
        unfolding c by auto
      have rm: "?A ! r \<in> set ?A" using r(1) n by simp
      have "trim ((?A ! r) JobID) = trim (d JobID)"
        using same_key(1) [OF full_has [OF r(2)] _ _ dbar r(3)] p nobar rm
        by (simp add: d_def full_has)
      then obtain a0 where "a0 \<in> set actSh" "hasIdentity a0" "?K a0 = ?K (?A ! r)"
        using g r p by (auto simp: d_def)
      then show "\<exists>a \<in> set actSh. hasIdentity a \<and> ?K a = ?K (?A ! n) \<and>
                (firstWithKey now ?A n \<and> valsEqual ((?A ! n) Email) (normEmail ((?A ! n) Email))
                   \<longrightarrow> activeRowSettled (rowAfterRun now st n) a)"
        using nf r(3) by (auto simp: d_def)
    qed
    have "runInvariant now st (Suc n) (allSh, actSh, pk, lg)" for lg
      by (rule inv_extend [OF inv' n F1 F2 J N D _ _ F4]) blast+
    then show ?thesis
      using skip step by (auto simp: s d_def [symmetric])
  next
    case same
    have fst: "firstWithKey now ?A n" using first same by blast
    let ?d1 = "case map_of (buildReqIndex (req st)) (trim (d JobID)) of
                 None \<Rightarrow> d
               | Some q \<Rightarrow> mirrorJobFields now (getRowObjectByHeaders (req st) q) d"
    have ra: "rowAfterRun now st n = ?d1"
      unfolding d_def using fst by (simp add: rowAfterRun_def Let_def)
    have nop: "\<not> (isOpenForActive (reqStatusOf (req st) (trim (d JobID))) \<and>
                  ?K d \<notin> set (recentEdits st))"
      using same(3) by (auto simp: reqStatusOf_def)
    have st1: "reconcileStep now [] (req st) (recentEdits st) (allSh, actSh, pk, log) (n, d) =
                (allSh[n := ?d1], actSh, pk @ [?K d], log')"
      unfolding step using same nop by (auto split: option.splits)
    have F1: "allSh[n := ?d1] = allSh[n := rowAfterRun now st n]" unfolding ra ..
    have F2: "set (pk @ [?K d]) = set pk \<union> (if fullIdentity (?A ! n) then {?K (?A ! n)} else {})"
      using same by (auto simp: d_def)
    have F4: "fullIdentity (?A ! n) \<and>
             isOpenForActive (reqStatusOf (req st) (trim ((?A ! n) JobID))) \<and>
             ?K (?A ! n) \<notin> set (recentEdits st) \<longrightarrow>
             (\<exists>a \<in> set actSh. hasIdentity a \<and> ?K a = ?K (?A ! n) \<and>
                (firstWithKey now ?A n \<and> valsEqual ((?A ! n) Email) (normEmail ((?A ! n) Email))
                   \<longrightarrow> activeRowSettled (rowAfterRun now st n) a))"
      using nop unfolding d_def by blast
    have "runInvariant now st (Suc n) (allSh[n := ?d1], actSh, pk @ [?K d], log')"
      by (rule inv_extend [OF inv' n F1 F2 J N D _ _ F4]) blast+
    then show ?thesis
      using same st1 full_has by (auto simp: s d_def [symmetric])
  next
    case (ups q)
    have fst: "firstWithKey now ?A n" using first ups by blast
    define d1 where "d1 = mirrorJobFields now (getRowObjectByHeaders (req st) q) d"
    define act' where "act' = fst (upsertActiveRow now d1 actSh)"
    have ra: "rowAfterRun now st n = d1"
      using fst ups(3) by (simp add: rowAfterRun_def d_def d1_def Let_def)
    have d1: "fullIdentity d1" "CHR ''|'' \<notin> set (d1 JobID)" "?K d1 = ?K d" "d1 Email = d Email"
      "hasIdentity d"
      using ups(1) dbar by (simp_all add: d1_def mirror_identity full_has)
    have st1: "reconcileStep now [] (req st) (recentEdits st) (allSh, actSh, pk, log) (n, d) =
                (allSh[n := d1], act', pk @ [?K d], log')"
      unfolding step using ups by (simp add: d1_def act'_def)
    note U = upsert_rows [OF d1(1,2) N, of now, folded act'_def, unfolded d1(3,4)]
    have keepd: "keepsActive now st (?K d)"
      using keeps_key [OF dmem d1(5) dbar ups(4)] .
    have F1: "allSh[n := d1] = allSh[n := rowAfterRun now st n]" unfolding ra ..
    have F2: "set (pk @ [?K d]) = set pk \<union> (if fullIdentity (?A ! n) then {?K (?A ! n)} else {})"
      using ups by (auto simp: d_def)
    have J': "\<forall>a \<in> set act'. hasIdentity a \<longrightarrow> keepsActive now st (?K a)"
      using U(1) J keepd by metis
    have N': "\<forall>a \<in> set act'. CHR ''|'' \<notin> set (a JobID)"
      using U(1) N by blast
    have D': "distinct (map ?K (filter hasIdentity act'))"
      using U(4) D by blast
    have sup: "\<forall>a \<in> set actSh. hasIdentity a \<longrightarrow>
               (\<exists>a' \<in> set act'. hasIdentity a' \<and> ?K a' = ?K a)"
    proof (intro ballI impI)
      fix a0 assume a0: "a0 \<in> set actSh" "hasIdentity a0"
      show "\<exists>a' \<in> set act'. hasIdentity a' \<and> ?K a' = ?K a0"
      proof (cases "?K a0 = ?K d")
        case True
        then show ?thesis using U(3) full_has by metis
      next
        case False
        then show ?thesis using U(2) a0 by blast
      qed
    qed
    have keep: "\<forall>a \<in> set actSh. hasIdentity a \<and>
               (firstWithKey now ?A n \<longrightarrow> ?K a \<noteq> ?K (?A ! n)) \<longrightarrow> a \<in> set act'"
      using U(2) fst by (simp add: d_def)
    have F4: "fullIdentity (?A ! n) \<and>
             isOpenForActive (reqStatusOf (req st) (trim ((?A ! n) JobID))) \<and>
             ?K (?A ! n) \<notin> set (recentEdits st) \<longrightarrow>
             (\<exists>a \<in> set act'. hasIdentity a \<and> ?K a = ?K (?A ! n) \<and>
                (firstWithKey now ?A n \<and> valsEqual ((?A ! n) Email) (normEmail ((?A ! n) Email))
                   \<longrightarrow> activeRowSettled (rowAfterRun now st n) a))"
      unfolding ra d_def [symmetric] using U(3) full_has by blast
    have "runInvariant now st (Suc n) (allSh[n := d1], act', pk @ [?K d], log')"
      by (rule inv_extend [OF inv' n F1 F2 J' N' D' sup keep F4])
    then show ?thesis
      using ups st1 full_has by (auto simp: s d_def [symmetric])
  qed
qed

lemma run_loop:
  assumes nobar: "\<forall>c \<in> set (allc st). CHR ''|'' \<notin> set (c JobID)"
    and inv: "runInvariant now st 0 s0"
  shows "n \<le> length (allc st) \<Longrightarrow>
         runInvariant now st n
           (foldl (reconcileStep now [] (req st) (recentEdits st)) s0
              (filter (\<lambda>(r, obj). hasIdentity obj) (List.enumerate 0 (take n (allc st)))))"
proof (induction n)
  case 0
  then show ?case using inv by simp
next
  case (Suc n)
  then have n: "n < length (allc st)" by simp
  let ?s = "foldl (reconcileStep now [] (req st) (recentEdits st)) s0
              (filter (\<lambda>(r, obj). hasIdentity obj) (List.enumerate 0 (take n (allc st))))"
  have "runInvariant now st n ?s" using Suc by simp
  from inv_step [OF nobar n this]
  show ?case unfolding rows_take_Suc [OF n] by (simp split: if_splits)
qed

lemma run_start:
  assumes nobar: "\<forall>a \<in> set (act st). CHR ''|'' \<notin> set (a JobID)"
    and D: "distinct (map (rowKey now) (filter hasIdentity (act st)))"
  shows "runInvariant now st 0
           (allc st,
            foldl (\<lambda>sh r. deleteRow r sh) (act st) (rev (sort (activeToDelete now [] st))),
            [], log)"
  unfolding runInvariant_def prod.case
  using deletion_pass_keeps [OF D] nobar deletions_distinct_keys [OF D]
  by simp

lemma run_result:
  assumes nobar: "\<forall>c \<in> set (allc st) \<union> set (act st). CHR ''|'' \<notin> set (c JobID)"
    and D: "distinct (map (rowKey now) (filter hasIdentity (act st)))"
  shows "\<exists>allSh actSh pk log.
           reconcileActiveMembership_ByJobIds now [] st = (st\<lparr>allc := allSh, act := actSh\<rparr>, log) \<and>
           runInvariant now st (length (allc st)) (allSh, actSh, pk, log)"
proof -
  let ?s0 = "(allc st,
            foldl (\<lambda>sh r. deleteRow r sh) (act st) (rev (sort (activeToDelete now [] st))),
            [], map DeleteActiveRow (rev (sort (activeToDelete now [] st))))"
  let ?s = "foldl (reconcileStep now [] (req st) (recentEdits st)) ?s0
              (filter (\<lambda>(r, obj). hasIdentity obj) (List.enumerate 0 (allc st)))"
  have nb: "\<forall>c \<in> set (allc st). CHR ''|'' \<notin> set (c JobID)"
    "\<forall>a \<in> set (act st). CHR ''|'' \<notin> set (a JobID)"
    using nobar by blast+
  have "runInvariant now st (length (allc st)) ?s"
    using run_loop [OF nb(1) run_start [OF nb(2) D], of "length (allc st)"] by simp
  moreover obtain allSh actSh pk log where s: "?s = (allSh, actSh, pk, log)" by (cases ?s)
  moreover have "reconcileActiveMembership_ByJobIds now [] st = (st\<lparr>allc := allSh, act := actSh\<rparr>, log)"
    unfolding reconcileActiveMembership_ByJobIds_def Let_def rows_eq
    using s by simp
  ultimately show ?thesis by metis
qed

lemma rowAfterRun_identity:
  "rowAfterRun now st r JobID = (allc st ! r) JobID"
  "rowAfterRun now st r Email = (allc st ! r) Email"
  "fullIdentity (rowAfterRun now st r) = fullIdentity (allc st ! r)"
  "hasIdentity (rowAfterRun now st r) = hasIdentity (allc st ! r)"
  "rowKey now' (rowAfterRun now st r) = rowKey now' (allc st ! r)"
  by (simp_all add: rowAfterRun_def Let_def mirror_identity split: option.splits)

lemma kept_row:
  assumes nobar: "\<forall>c \<in> set (allc st). CHR ''|'' \<notin> set (c JobID)"
    and inv: "runInvariant now st (length (allc st)) (allSh, actSh, pk, log)"
    and a: "a \<in> set actSh" "hasIdentity a"
  shows "\<exists>c \<in> set allSh. hasIdentity c \<and> rowKey now c = rowKey now a \<and>
           (fullIdentity c \<longleftrightarrow> fullIdentity a) \<and>
           isOpenForActive (reqStatusOf (req st) (trim (c JobID)))"
proof -
  from inv have
    len: "length allSh = length (allc st)"
    and h: "\<forall>r<length (allc st). allSh ! r = rowAfterRun now st r"
    and J: "\<forall>a \<in> set actSh. hasIdentity a \<longrightarrow> keepsActive now st (rowKey now a)"
    and N: "\<forall>a \<in> set actSh. CHR ''|'' \<notin> set (a JobID)"
    unfolding runInvariant_def prod.case by blast+
  have k: "keepsActive now st (rowKey now a)" using J a by blast
  then obtain c0 where c0: "c0 \<in> set (allc st)" "hasIdentity c0" "rowKey now c0 = rowKey now a"
    unfolding keepsActive_def index_has_iff by blast
  then obtain r where r: "r < length (allc st)" "allc st ! r = c0"
    by (auto simp: in_set_conv_nth)
  have na: "CHR ''|'' \<notin> set (a JobID)" using N a by blast
  have nc: "CHR ''|'' \<notin> set (c0 JobID)" using nobar c0 by blast
  note sk = same_key [OF c0(2) a(2) nc na c0(3)]
  have op: "isOpenForActive (reqStatusOf (req st) (trim (c0 JobID)))"
    using k unfolding keepsActive_def key_job [OF a(2) na] sk(1) by simp
  let ?c = "rowAfterRun now st r"
  have "?c \<in> set allSh" using h r(1) len by (metis nth_mem)
  moreover have "hasIdentity ?c" "rowKey now ?c = rowKey now a" "fullIdentity ?c \<longleftrightarrow> fullIdentity a"
    "isOpenForActive (reqStatusOf (req st) (trim (?c JobID)))"
    using c0 sk op by (simp_all add: rowAfterRun_identity r(2))
  ultimately show ?thesis by blast
qed

lemma open_row:
  assumes nobar: "\<forall>c \<in> set (allc st). CHR ''|'' \<notin> set (c JobID)"
    and inv: "runInvariant now st (length (allc st)) (allSh, actSh, pk, log)"
    and recent: "recentEdits st = []"
    and c: "c \<in> set allSh" "fullIdentity c"
      "isOpenForActive (reqStatusOf (req st) (trim (c JobID)))"
  shows "\<exists>a \<in> set actSh. fullIdentity a \<and> rowKey now a = rowKey now c"
proof -
  from inv have
    len: "length allSh = length (allc st)"
    and h: "\<forall>r<length (allc st). allSh ! r = rowAfterRun now st r"
    and N: "\<forall>a \<in> set actSh. CHR ''|'' \<notin> set (a JobID)"
    and g: "\<forall>r<length (allc st). fullIdentity (allc st ! r) \<and>
               isOpenForActive (reqStatusOf (req st) (trim ((allc st ! r) JobID))) \<and>
               rowKey now (allc st ! r) \<notin> set (recentEdits st)
           \<longrightarrow> (\<exists>a \<in> set actSh. hasIdentity a \<and> rowKey now a = rowKey now (allc st ! r))"
    unfolding runInvariant_def prod.case by blast+
  from c(1) obtain r where r: "r < length (allc st)" "allSh ! r = c"
    using len by (auto simp: in_set_conv_nth)
  have cr: "c = rowAfterRun now st r" using h r by auto
  let ?c0 = "allc st ! r"
  have c0: "fullIdentity ?c0" "isOpenForActive (reqStatusOf (req st) (trim (?c0 JobID)))"
    "rowKey now ?c0 = rowKey now c"
    using c(2,3) by (simp_all add: cr rowAfterRun_identity)
  then obtain a where a: "a \<in> set actSh" "hasIdentity a" "rowKey now a = rowKey now ?c0"
    using g r(1) recent by auto
  have "CHR ''|'' \<notin> set (a JobID)" "CHR ''|'' \<notin> set (?c0 JobID)"
    using N a(1) nobar r(1) by auto
  from same_key(2) [OF a(2) full_has [OF c0(1)] this a(3)]
  have "fullIdentity a" using c0(1) by simp
  then show ?thesis using a c0(3) by auto
qed

text \<open>
  C1, with the conditions under which it holds. After a run over all jobs with no recently
  edited keys, on sheets where no job ID contains \<open>|\<close> and no two Active rows with an
  identity share a key: for every key, an Active row with a job ID and an email has that
  key if and only if a Candidate Database row with a job ID and an email has it and the
  requisition of its job ID is Open or On Hold; and every Active row with a job ID or an
  email has the key of a Candidate Database row whose requisition is Open or On Hold.
\<close>

theorem reconcile_membership:
  assumes "\<forall>c \<in> set (allc st) \<union> set (act st). CHR ''|'' \<notin> set (c JobID)"
    and "distinct (map (rowKey now) (filter hasIdentity (act st)))"
    and "recentEdits st = []"
    and "st' = fst (reconcileActiveMembership_ByJobIds now [] st)"
  shows "(\<forall>k. (\<exists>a \<in> set (act st'). fullIdentity a \<and> rowKey now a = k) \<longleftrightarrow>
              (\<exists>c \<in> set (allc st'). fullIdentity c \<and> rowKey now c = k \<and>
                 isOpenForActive (reqStatusOf (req st') (trim (c JobID))))) \<and>
         (\<forall>a \<in> set (act st'). hasIdentity a \<longrightarrow>
              (\<exists>c \<in> set (allc st'). hasIdentity c \<and> rowKey now c = rowKey now a \<and>
                 isOpenForActive (reqStatusOf (req st') (trim (c JobID)))))"
proof -
  from run_result [OF assms(1,2)] obtain allSh actSh pk log where
    run: "reconcileActiveMembership_ByJobIds now [] st = (st\<lparr>allc := allSh, act := actSh\<rparr>, log)"
    and inv: "runInvariant now st (length (allc st)) (allSh, actSh, pk, log)"
    by blast
  have st': "allc st' = allSh" "act st' = actSh" "req st' = req st"
    by (simp_all add: assms(4) run)
  have nobar: "\<forall>c \<in> set (allc st). CHR ''|'' \<notin> set (c JobID)" using assms(1) by blast
  note kept = kept_row [OF nobar inv]
  note opn = open_row [OF nobar inv assms(3)]
  show ?thesis
    unfolding st'
  proof (intro conjI allI iffI ballI impI)
    fix k assume "\<exists>a \<in> set actSh. fullIdentity a \<and> rowKey now a = k"
    then obtain a where a: "a \<in> set actSh" "fullIdentity a" "rowKey now a = k" by blast
    from kept [OF a(1) full_has [OF a(2)]] a(2,3)
    show "\<exists>c \<in> set allSh. fullIdentity c \<and> rowKey now c = k \<and>
            isOpenForActive (reqStatusOf (req st) (trim (c JobID)))"
      by blast
  next
    fix k assume "\<exists>c \<in> set allSh. fullIdentity c \<and> rowKey now c = k \<and>
            isOpenForActive (reqStatusOf (req st) (trim (c JobID)))"
    then show "\<exists>a \<in> set actSh. fullIdentity a \<and> rowKey now a = k"
      using opn by blast
  next
    fix a assume "a \<in> set actSh" "hasIdentity a"
    from kept [OF this]
    show "\<exists>c \<in> set allSh. hasIdentity c \<and> rowKey now c = rowKey now a \<and>
            isOpenForActive (reqStatusOf (req st) (trim (c JobID)))"
      by blast
  qed
qed

text \<open>
  The theorem on \<open>ex_two_jobs\<close>: the candidate of the open job has an Active row after the
  run, the candidate of the closed job has none.
\<close>

theorem reconcile_membership_witness:
  "(\<exists>a \<in> set (act (fst (reconcileActiveMembership_ByJobIds 5 [] ex_two_jobs))).
      fullIdentity a \<and> rowKey 5 a = ''J1|a@x.com'') \<and>
   \<not> (\<exists>a \<in> set (act (fst (reconcileActiveMembership_ByJobIds 5 [] ex_two_jobs))).
      fullIdentity a \<and> rowKey 5 a = ''J2|b@x.com'')"
proof -
  let ?st' = "fst (reconcileActiveMembership_ByJobIds 5 [] ex_two_jobs)"
  have h1: "\<forall>c \<in> set (allc ex_two_jobs) \<union> set (act ex_two_jobs). CHR ''|'' \<notin> set (c JobID)"
    by (simp add: ex_two_jobs_def blank_row_def)
  have h2: "distinct (map (rowKey 5) (filter hasIdentity (act ex_two_jobs)))"
    by code_simp
  have h3: "recentEdits ex_two_jobs = []"
    by (simp add: ex_two_jobs_def)
  note h = h1 h2 h3
  have r1: "\<exists>c \<in> set (allc ?st'). fullIdentity c \<and> rowKey 5 c = ''J1|a@x.com'' \<and>
              isOpenForActive (reqStatusOf (req ?st') (trim (c JobID)))"
    by code_simp
  have r2: "\<not> (\<exists>c \<in> set (allc ?st'). fullIdentity c \<and> rowKey 5 c = ''J2|b@x.com'' \<and>
              isOpenForActive (reqStatusOf (req ?st') (trim (c JobID))))"
    by code_simp
  note m = reconcile_membership [OF h refl, THEN conjunct1]
  from m [THEN spec, of "''J1|a@x.com''"] m [THEN spec, of "''J2|b@x.com''"] r1 r2
  show ?thesis by (simp only: simp_thms)
qed

text \<open>
  C1 (as stated) fails. A candidate without an email is skipped by the loop: its key is in
  the Candidate Database and its requisition is Open, but it has no Active row. Of two
  Active rows with one key and no candidate, the run deletes the one that the index holds
  and the other stays. For the job ID \<open>A|B\<close> the deletion pass looks at the requisition
  \<open>A\<close>, which is Open, so the Active row stays though the requisition \<open>A|B\<close> is Closed.
\<close>

theorem reconcile_membership_fails:
  "map (rowKey 5) (act (fst (reconcileActiveMembership_ByJobIds 5 [] ex_blank))) = [] \<and>
   map (rowKey 5) (allc (fst (reconcileActiveMembership_ByJobIds 5 [] ex_blank))) = [''J1|''] \<and>
   isOpenForActive (reqStatusOf (req (fst (reconcileActiveMembership_ByJobIds 5 [] ex_blank))) ''J1'') \<and>
   map (rowKey 5) (act (fst (reconcileActiveMembership_ByJobIds 5 [] ex_twin))) = [''J1|a@x.com''] \<and>
   map (rowKey 5) (allc (fst (reconcileActiveMembership_ByJobIds 5 [] ex_twin))) = [] \<and>
   map (rowKey 5) (act (fst (reconcileActiveMembership_ByJobIds 5 [] ex_bar))) = [''A|B|a@x.com''] \<and>
   map (rowKey 5) (allc (fst (reconcileActiveMembership_ByJobIds 5 [] ex_bar))) = [''A|B|a@x.com''] \<and>
   reqStatusOf (req (fst (reconcileActiveMembership_ByJobIds 5 [] ex_bar))) ''A|B'' = ''Closed''"
  by code_simp

lemma step_fixed:
  assumes "fullIdentity d \<and> rowKey now d \<notin> set pk \<longrightarrow>
     (case map_of (buildReqIndex reqSh) (trim (d JobID)) of
        None \<Rightarrow> True
      | Some q \<Rightarrow>
          diffFields (blank_row(JobTitle := getRowObjectByHeaders reqSh q JobTitle,
                        JobStatus := canonReqStatus (getRowObjectByHeaders reqSh q JobStatus)))
            d [JobTitle, JobStatus] = [] \<and>
          (isOpenForActive (reqStatusOf reqSh (trim (d JobID))) \<and> rowKey now d \<notin> set recent \<longrightarrow>
             upsertActiveRow now d actSh = (actSh, [])))"
  shows "reconcileStep now [] reqSh recent (allSh, actSh, pk, log) (r, d) =
           (allSh, actSh, if fullIdentity d \<and> rowKey now d \<notin> set pk then pk @ [rowKey now d] else pk, log)"
proof (cases "fullIdentity d \<and> rowKey now d \<notin> set pk")
  case False
  then show ?thesis
    by (auto simp: reconcileStep_def fullIdentity_def rowKey_def normStr_def filterJob_def Let_def)
next
  case True
  then have f: "trim (d JobID) \<noteq> []" "normEmail (d Email) \<noteq> []"
    "keyFor now (trim (d JobID)) (normEmail (d Email)) \<notin> set pk"
    by (auto simp: fullIdentity_def rowKey_def)
  show ?thesis
  proof (cases "map_of (buildReqIndex reqSh) (trim (d JobID))")
    case None
    then show ?thesis using True f
      by (simp add: reconcileStep_def normStr_def filterJob_def Let_def rowKey_def)
  next
    case (Some q)
    have df: "diffFields (blank_row(JobTitle := getRowObjectByHeaders reqSh q JobTitle,
                        JobStatus := canonReqStatus (getRowObjectByHeaders reqSh q JobStatus)))
            d [JobTitle, JobStatus] = []"
      and up: "isOpenForActive (getRowObjectByHeaders reqSh q JobStatus) \<and>
               keyFor now (trim (d JobID)) (normEmail (d Email)) \<notin> set recent \<longrightarrow>
             upsertActiveRow now d actSh = (actSh, [])"
      using assms True Some by (simp_all add: reqStatusOf_def rowKey_def)
    show ?thesis
      using True f Some up
      by (simp add: reconcileStep_def normStr_def filterJob_def Let_def rowKey_def df)
  qed
qed

lemma settled_upsert:
  assumes D: "distinct (map (rowKey now) (filter hasIdentity actSh))"
    and a: "a \<in> set actSh" "hasIdentity a" "rowKey now a = rowKey now d" "activeRowSettled d a"
    and d: "fullIdentity d"
  shows "upsertActiveRow now' d actSh = (actSh, [])"
proof -
  from a(1) obtain i where i: "i < length actSh" "actSh ! i = a" by (auto simp: in_set_conv_nth)
  have "map_of (fst (buildCandidateIndex now actSh)) (rowKey now (actSh ! i)) = Some i"
    using index_unique [OF D i(1)] a(2) i(2) by simp
  then have "map_of (fst (buildCandidateIndex now' actSh)) (rowKey now' d) = Some i"
    using a(3) i(2) buildCandidateIndex_clock [of now actSh now']
      rowKey_clock [OF full_has [OF d], of now now'] by simp
  from upsert_settled [OF d this] show ?thesis using a(4) i(2) by simp
qed

lemma rerun_loop:
  assumes inv: "runInvariant now st (length (allc st)) (allSh, actSh, pk, log)"
    and ve: "\<forall>c \<in> set (allc st). valsEqual (c Email) (normEmail (c Email))"
  shows "n \<le> length (allc st) \<Longrightarrow>
         \<exists>pk'. foldl (reconcileStep now' [] (req st) (recentEdits st)) (allSh, actSh, [], [])
                  (filter (\<lambda>(r, obj). hasIdentity obj) (List.enumerate 0 (take n allSh)))
                = (allSh, actSh, pk', []) \<and>
               set pk' = {rowKey now (allc st ! r) | r. r < n \<and> fullIdentity (allc st ! r)}"
proof (induction n)
  case 0
  then show ?case by simp
next
  case (Suc n)
  let ?A = "allc st"
  from inv have
    len: "length allSh = length ?A"
    and h: "\<forall>r<length ?A. allSh ! r = rowAfterRun now st r"
    and D: "distinct (map (rowKey now) (filter hasIdentity actSh))"
    and i: "\<forall>r<length ?A. firstWithKey now ?A r \<and>
               isOpenForActive (reqStatusOf (req st) (trim ((?A ! r) JobID))) \<and>
               rowKey now (?A ! r) \<notin> set (recentEdits st) \<and>
               valsEqual ((?A ! r) Email) (normEmail ((?A ! r) Email))
           \<longrightarrow> (\<exists>a \<in> set actSh. hasIdentity a \<and> rowKey now a = rowKey now (?A ! r) \<and>
                  activeRowSettled (rowAfterRun now st r) a)"
    unfolding runInvariant_def prod.case by blast+
  from Suc have n: "n < length ?A" "n < length allSh" using len by simp_all
  from Suc obtain pk' where
    run: "foldl (reconcileStep now' [] (req st) (recentEdits st)) (allSh, actSh, [], [])
                  (filter (\<lambda>(r, obj). hasIdentity obj) (List.enumerate 0 (take n allSh)))
                = (allSh, actSh, pk', [])"
    and pk: "set pk' = {rowKey now (?A ! r) | r. r < n \<and> fullIdentity (?A ! r)}"
    by auto
  define d where "d = allSh ! n"
  have d: "d = rowAfterRun now st n" using h n by (simp add: d_def)
  have id: "d JobID = (?A ! n) JobID" "fullIdentity d = fullIdentity (?A ! n)"
    "hasIdentity d = hasIdentity (?A ! n)" "rowKey now d = rowKey now (?A ! n)"
    by (simp_all add: d rowAfterRun_identity)
  have ck: "fullIdentity d \<Longrightarrow> rowKey now' d = rowKey now d"
    using rowKey_clock [OF full_has] by blast
  let ?pk = "if fullIdentity d \<and> rowKey now' d \<notin> set pk' then pk' @ [rowKey now' d] else pk'"
  have step: "reconcileStep now' [] (req st) (recentEdits st) (allSh, actSh, pk', []) (n, d) =
                (allSh, actSh, ?pk, [])"
  proof (rule step_fixed, intro impI)
    assume p: "fullIdentity d \<and> rowKey now' d \<notin> set pk'"
    then have fst: "firstWithKey now ?A n"
      using first_iff [OF pk] ck id by simp
    show "case map_of (buildReqIndex (req st)) (trim (d JobID)) of
        None \<Rightarrow> True
      | Some q \<Rightarrow>
          diffFields (blank_row(JobTitle := getRowObjectByHeaders (req st) q JobTitle,
                        JobStatus := canonReqStatus (getRowObjectByHeaders (req st) q JobStatus)))
            d [JobTitle, JobStatus] = [] \<and>
          (isOpenForActive (reqStatusOf (req st) (trim (d JobID))) \<and>
           rowKey now' d \<notin> set (recentEdits st) \<longrightarrow>
             upsertActiveRow now' d actSh = (actSh, []))"
    proof (cases "map_of (buildReqIndex (req st)) (trim (d JobID))")
      case None
      then show ?thesis by simp
    next
      case (Some q)
      then have "map_of (buildReqIndex (req st)) (trim ((?A ! n) JobID)) = Some q"
        by (simp only: id(1))
      then have "rowAfterRun now st n = mirrorJobFields now (getRowObjectByHeaders (req st) q) (?A ! n)"
        using fst by (simp add: rowAfterRun_def Let_def)
      then have dq: "d = mirrorJobFields now (getRowObjectByHeaders (req st) q) (?A ! n)"
        by (simp only: d)
      have df: "diffFields (blank_row(JobTitle := getRowObjectByHeaders (req st) q JobTitle,
                        JobStatus := canonReqStatus (getRowObjectByHeaders (req st) q JobStatus)))
            d [JobTitle, JobStatus] = []"
        unfolding dq by (rule mirror_diff_Nil)
      have up: "upsertActiveRow now' d actSh = (actSh, [])"
        if op: "isOpenForActive (reqStatusOf (req st) (trim (d JobID)))"
          and nr: "rowKey now' d \<notin> set (recentEdits st)"
      proof -
        have nr': "rowKey now (?A ! n) \<notin> set (recentEdits st)"
          using nr ck p id(4) by simp
        have "valsEqual ((?A ! n) Email) (normEmail ((?A ! n) Email))"
          using ve n(1) by simp
        then obtain a where a: "a \<in> set actSh" "hasIdentity a" "rowKey now a = rowKey now (?A ! n)"
          "activeRowSettled (rowAfterRun now st n) a"
          using i n(1) fst op id(1) nr' by auto
        show ?thesis
          using settled_upsert [OF D a(1,2) _ _ conjunct1 [OF p], of now'] a(3,4) id(4) d by simp
      qed
      show ?thesis using Some df up by simp
    qed
  qed
  have pk2: "set ?pk = {rowKey now (?A ! r) | r. r < Suc n \<and> fullIdentity (?A ! r)}"
    using pk ck id by (auto simp: less_Suc_eq)
  have "foldl (reconcileStep now' [] (req st) (recentEdits st)) (allSh, actSh, [], [])
                  (filter (\<lambda>(r, obj). hasIdentity obj) (List.enumerate 0 (take (Suc n) allSh)))
        = (if hasIdentity d then (allSh, actSh, ?pk, []) else (allSh, actSh, pk', []))"
    unfolding rows_take_Suc [OF n(2)] using run step by (simp add: d_def)
  moreover have "\<not> hasIdentity d \<Longrightarrow> ?pk = pk'" using full_has by auto
  ultimately have "foldl (reconcileStep now' [] (req st) (recentEdits st)) (allSh, actSh, [], [])
                  (filter (\<lambda>(r, obj). hasIdentity obj) (List.enumerate 0 (take (Suc n) allSh)))
        = (allSh, actSh, ?pk, [])"
    by (cases "hasIdentity d") simp_all
  then show ?case using pk2 by blast
qed

lemma keeps_after:
  assumes inv: "runInvariant now st (length (allc st)) (allSh, actSh, pk, log)"
  shows "keepsActive now' (st\<lparr>allc := allSh, act := actSh\<rparr>) key = keepsActive now st key"
proof -
  from inv have
    len: "length allSh = length (allc st)"
    and h: "\<forall>r<length (allc st). allSh ! r = rowAfterRun now st r"
    unfolding runInvariant_def prod.case by blast+
  have "(\<exists>obj \<in> set allSh. hasIdentity obj \<and> rowKey now obj = key) \<longleftrightarrow>
        (\<exists>r<length (allc st). hasIdentity (allSh ! r) \<and> rowKey now (allSh ! r) = key)"
    using len by (metis in_set_conv_nth)
  also have "\<dots> \<longleftrightarrow> (\<exists>r<length (allc st). hasIdentity (allc st ! r) \<and> rowKey now (allc st ! r) = key)"
    using h rowAfterRun_identity(4,5) by (metis (no_types, lifting))
  also have "\<dots> \<longleftrightarrow> (\<exists>obj \<in> set (allc st). hasIdentity obj \<and> rowKey now obj = key)"
    by (metis in_set_conv_nth)
  finally have "keepsActive now (st\<lparr>allc := allSh, act := actSh\<rparr>) key = keepsActive now st key"
    unfolding keepsActive_def index_has_iff by simp
  then show ?thesis
    using keepsActive_clock [of now' "st\<lparr>allc := allSh, act := actSh\<rparr>" key now] by simp
qed

text \<open>
  When a second run is quiet. On sheets where no job ID contains \<open>|\<close>, no two Active rows
  with an identity share a key, and every email cell of the Candidate Database compares
  equal, as \<open>_valsEqual_\<close> compares, to its normalized email: a second run over all jobs
  right after a first one, at any clock reading, performs no write and leaves the workbook
  as the first run left it.
\<close>

theorem reconcile_idempotent:
  assumes "\<forall>c \<in> set (allc st) \<union> set (act st). CHR ''|'' \<notin> set (c JobID)"
    and "distinct (map (rowKey now) (filter hasIdentity (act st)))"
    and "\<forall>c \<in> set (allc st). valsEqual (c Email) (normEmail (c Email))"
  shows "reconcileActiveMembership_ByJobIds now' [] (fst (reconcileActiveMembership_ByJobIds now [] st))
         = (fst (reconcileActiveMembership_ByJobIds now [] st), [])"
proof -
  from run_result [OF assms(1,2)] obtain allSh actSh pk log where
    run: "reconcileActiveMembership_ByJobIds now [] st = (st\<lparr>allc := allSh, act := actSh\<rparr>, log)"
    and inv: "runInvariant now st (length (allc st)) (allSh, actSh, pk, log)"
    by blast
  define st1 where "st1 = st\<lparr>allc := allSh, act := actSh\<rparr>"
  have st1: "allc st1 = allSh" "act st1 = actSh" "req st1 = req st" "recentEdits st1 = recentEdits st"
    "st1\<lparr>allc := allSh, act := actSh\<rparr> = st1"
    by (simp_all add: st1_def)
  from inv have
    len: "length allSh = length (allc st)"
    and J: "\<forall>a \<in> set actSh. hasIdentity a \<longrightarrow> keepsActive now st (rowKey now a)"
    unfolding runInvariant_def prod.case by blast+
  have "\<forall>a \<in> set (act st1). hasIdentity a \<longrightarrow> keepsActive now' st1 (rowKey now' a)"
    using J keeps_after [OF inv, of now'] rowKey_clock [of _ now' now]
    by (simp add: st1_def)
  from deletion_pass_none [OF this]
  have del: "activeToDelete now' [] st1 = []" .
  from rerun_loop [OF inv assms(3), of "length (allc st)" now'] obtain pk' where
    loop: "foldl (reconcileStep now' [] (req st) (recentEdits st)) (allSh, actSh, [], [])
                  (filter (\<lambda>(r, obj). hasIdentity obj) (List.enumerate 0 allSh))
                = (allSh, actSh, pk', [])"
    using len by auto
  have "reconcileActiveMembership_ByJobIds now' [] st1 = (st1, [])"
    unfolding reconcileActiveMembership_ByJobIds_def Let_def rows_eq del st1(1-4)
    using loop st1(5) by simp
  then show ?thesis by (simp add: run st1_def)
qed

text \<open>
  The theorem on \<open>ex_two_jobs\<close>: the first run deletes the Active row of the closed job,
  mirrors title and status into both candidates and inserts the Active row of the open
  job; the second run writes nothing.
\<close>

theorem reconcile_idempotent_witness:
  "snd (reconcileActiveMembership_ByJobIds 5 [] ex_two_jobs) =
     [DeleteActiveRow 0,
      WriteAll 0 [(JobTitle, ''Eng''), (JobStatus, ''Open''), (Updated, ''5'')],
      InsertActiveRow 0,
      WriteAll 1 [(JobTitle, ''Ops''), (JobStatus, ''Closed''), (Updated, ''5'')]] \<and>
   snd (reconcileActiveMembership_ByJobIds 6 []
          (fst (reconcileActiveMembership_ByJobIds 5 [] ex_two_jobs))) = []"
proof -
  have h1: "\<forall>c \<in> set (allc ex_two_jobs) \<union> set (act ex_two_jobs). CHR ''|'' \<notin> set (c JobID)"
    by (simp add: ex_two_jobs_def blank_row_def)
  have h2: "distinct (map (rowKey 5) (filter hasIdentity (act ex_two_jobs)))"
    by code_simp
  have e: "valsEqual ''a@x.com'' (normEmail ''a@x.com'')" "valsEqual ''b@x.com'' (normEmail ''b@x.com'')"
    by code_simp+
  have h3: "\<forall>c \<in> set (allc ex_two_jobs). valsEqual (c Email) (normEmail (c Email))"
    using e by (simp add: ex_two_jobs_def)
  note h = h1 h2 h3
  have f: "snd (reconcileActiveMembership_ByJobIds 5 [] ex_two_jobs) =
     [DeleteActiveRow 0,
      WriteAll 0 [(JobTitle, ''Eng''), (JobStatus, ''Open''), (Updated, ''5'')],
      InsertActiveRow 0,
      WriteAll 1 [(JobTitle, ''Ops''), (JobStatus, ''Closed''), (Updated, ''5'')]]"
    by code_simp
  show ?thesis
    using reconcile_idempotent [OF h, of 6] f by simp
qed

text \<open>
  C2 fails on the code: a second run over all jobs right after a first one writes again.
  The first run copies the email \<open>John@X.com\<close> to the Active row and \<open>_upsertActiveRow_\<close>
  then links the cell under the label \<open>john@x.com\<close>, the normalized email (the phone cell
  beside it is linked under the text of the cell); the second run finds the cell different
  from the candidate's email and writes it again, and so does every later run. Of two
  Active rows with one key and no candidate, each run deletes the one that the index
  holds. For the job ID \<open>A|B\<close> the deletion pass of the second run looks for the
  requisition \<open>A\<close>, deletes the Active row, and the loop inserts it again.
\<close>

theorem reconcile_rerun_writes:
  "snd (reconcileActiveMembership_ByJobIds 6 []
          (fst (reconcileActiveMembership_ByJobIds 5 [] ex_raw_email)))
     = [WriteActive 0 [(Email, ''John@X.com'')]] \<and>
   snd (reconcileActiveMembership_ByJobIds 6 []
          (fst (reconcileActiveMembership_ByJobIds 5 [] ex_twin)))
     = [DeleteActiveRow 0] \<and>
   snd (reconcileActiveMembership_ByJobIds 6 []
          (fst (reconcileActiveMembership_ByJobIds 5 [] ex_bar_open)))
     = [DeleteActiveRow 0, InsertActiveRow 0]"
  by code_simp

section \<open>The composite key\<close>










end
